theory Spec2Isabelle
  imports Complex_Main
begin

section \<open>Numbers\<close>

text \<open>
  A JavaScript \<^verbatim>\<open>number\<close> is an IEEE double. The model keeps the three kinds of value
  that the layout code can tell apart: a finite value, the two infinities and NaN.
  Finite doubles are idealised by reals: rounding, overflow of a finite result and the
  sign of zero are not modelled. Every divisor in the source is a square root, a
  \<^verbatim>\<open>length\<close>, a \<^verbatim>\<open>clientWidth\<close>-derived value or a loop index, none of which is
  a negative zero, so a finite value divided by zero takes the sign of the numerator.
\<close>

datatype number = Fin real | PInf | NInf | NaN

fun js_neg :: "number \<Rightarrow> number" where
  "js_neg (Fin a) = Fin (- a)"
| "js_neg PInf = NInf"
| "js_neg NInf = PInf"
| "js_neg NaN = NaN"

fun js_add :: "number \<Rightarrow> number \<Rightarrow> number" where
  "js_add (Fin a) (Fin b) = Fin (a + b)"
| "js_add NaN _ = NaN"
| "js_add _ NaN = NaN"
| "js_add PInf NInf = NaN"
| "js_add NInf PInf = NaN"
| "js_add PInf _ = PInf"
| "js_add _ PInf = PInf"
| "js_add NInf _ = NInf"
| "js_add _ NInf = NInf"

definition js_sub :: "number \<Rightarrow> number \<Rightarrow> number" where
  "js_sub a b = js_add a (js_neg b)"

text \<open>The sign of a number that is not NaN: \<open>-1\<close>, \<open>0\<close> or \<open>1\<close>.\<close>

fun js_sign :: "number \<Rightarrow> int" where
  "js_sign (Fin a) = (if a < 0 then - 1 else if a = 0 then 0 else 1)"
| "js_sign PInf = 1"
| "js_sign NInf = - 1"
| "js_sign NaN = 0"

definition js_inf :: "int \<Rightarrow> number" where
  "js_inf s = (if s = 0 then NaN else if 0 < s then PInf else NInf)"

fun js_mul :: "number \<Rightarrow> number \<Rightarrow> number" where
  "js_mul (Fin a) (Fin b) = Fin (a * b)"
| "js_mul NaN _ = NaN"
| "js_mul _ NaN = NaN"
| "js_mul a b = js_inf (js_sign a * js_sign b)"

fun js_div :: "number \<Rightarrow> number \<Rightarrow> number" where
  "js_div (Fin a) (Fin b) = (if b = 0 then js_inf (js_sign (Fin a)) else Fin (a / b))"
| "js_div NaN _ = NaN"
| "js_div _ NaN = NaN"
| "js_div (Fin a) _ = Fin 0"
| "js_div PInf (Fin b) = (if 0 \<le> b then PInf else NInf)"
| "js_div NInf (Fin b) = (if 0 \<le> b then NInf else PInf)"
| "js_div _ _ = NaN"

text \<open>\<^verbatim>\<open>Math.sqrt\<close>, \<^verbatim>\<open>Math.abs\<close>, \<^verbatim>\<open>Math.min\<close> and \<^verbatim>\<open>Math.max\<close>; the last two
  return NaN as soon as one argument is NaN.\<close>

fun js_sqrt :: "number \<Rightarrow> number" where
  "js_sqrt (Fin a) = (if a < 0 then NaN else Fin (sqrt a))"
| "js_sqrt PInf = PInf"
| "js_sqrt NInf = NaN"
| "js_sqrt NaN = NaN"

fun js_abs :: "number \<Rightarrow> number" where
  "js_abs (Fin a) = Fin \<bar>a\<bar>"
| "js_abs PInf = PInf"
| "js_abs NInf = PInf"
| "js_abs NaN = NaN"

text \<open>The comparison \<^verbatim>\<open>a < b\<close> is false when either side is NaN; so is \<^verbatim>\<open>a <= b\<close>.\<close>

fun js_lt :: "number \<Rightarrow> number \<Rightarrow> bool" where
  "js_lt (Fin a) (Fin b) = (a < b)"
| "js_lt NaN _ = False"
| "js_lt _ NaN = False"
| "js_lt _ NInf = False"
| "js_lt PInf _ = False"
| "js_lt _ _ = True"

fun js_le :: "number \<Rightarrow> number \<Rightarrow> bool" where
  "js_le (Fin a) (Fin b) = (a \<le> b)"
| "js_le NaN _ = False"
| "js_le _ NaN = False"
| "js_le NInf _ = True"
| "js_le _ PInf = True"
| "js_le (Fin a) NInf = False"
| "js_le PInf _ = False"

definition js_min :: "number \<Rightarrow> number \<Rightarrow> number" where
  "js_min a b = (if a = NaN \<or> b = NaN then NaN else if js_lt b a then b else a)"

definition js_max :: "number \<Rightarrow> number \<Rightarrow> number" where
  "js_max a b = (if a = NaN \<or> b = NaN then NaN else if js_lt a b then b else a)"

text \<open>\<^verbatim>\<open>Math.pow(z, 2)\<close>.\<close>

definition js_pow2 :: "number \<Rightarrow> number" where
  "js_pow2 z = js_mul z z"

text \<open>
  \<^verbatim>\<open>Math.random()\<close> is a source of values in \<open>[0, 1)\<close> that the program does not
  control. The model threads the sequence of values still to be drawn through every
  function that draws; a draw takes the head and leaves the tail.
\<close>

type_synonym rand = "nat \<Rightarrow> real"

definition rnd_hd :: "rand \<Rightarrow> number" where
  "rnd_hd rnd = Fin (rnd 0)"

definition rnd_tl :: "rand \<Rightarrow> rand" where
  "rnd_tl rnd = (\<lambda>i. rnd (Suc i))"

section \<open>Data model\<close>

text \<open>
  Objects of class \<^verbatim>\<open>GraphNode\<close> live in an object store and are compared by reference
  (\<^verbatim>\<open>===\<close>, \<^verbatim>\<open>includes\<close>). A reference is an address; \<open>objects\<close> maps an address to
  the fields of the object there and \<open>nextRef\<close> is the next unused address. Every
  array of the source that holds nodes holds references.
  The field \<^verbatim>\<open>disp\<close> is an object of its own, created fresh for every node and never
  shared, so it is kept by value. The fields \<^verbatim>\<open>id\<close>, \<^verbatim>\<open>x\<close>, \<^verbatim>\<open>y\<close> are named
  \<open>n_id\<close>, \<open>n_x\<close>, \<open>n_y\<close>.
\<close>

type_synonym ref = nat

record vec =
  vx :: number
  vy :: number

record GraphNode =
  n_id :: string
  n_x :: number
  n_y :: number
  label :: string
  displayLabel :: bool
  weight :: number
  disp :: vec
  strokeColor :: string
  fillColor :: string

text \<open>An edge object \<^verbatim>\<open>{source, target}\<close>. The store's edges join references to
  nodes; the searches compare endpoints with \<^verbatim>\<open>===\<close> and work for endpoints of any
  kind.\<close>

record 'n Edge =
  source :: 'n
  target :: 'n

text \<open>The part of the \<^verbatim>\<open>canvas\<close> element that the class reads.\<close>

record Canvas =
  clientWidth :: number
  clientHeight :: number

text \<open>
  The fields of class \<^verbatim>\<open>Graph\<close>. \<open>nodeDictionary\<close> is the plain object used as a
  dictionary from id to node; the field holds what \<^verbatim>\<open>addNode\<close> has stored in it,
  \<open>None\<close> for a key that was never stored. What the expression
  \<^verbatim>\<open>this.nodeDictionary[k]\<close> gives for such a key is \<open>dictGet\<close> below.
\<close>

record Graph =
  canvas :: Canvas
  objects :: "ref \<Rightarrow> GraphNode"
  nextRef :: ref
  nodes :: "ref list"
  nodeIds :: "string list"
  nodeDictionary :: "string \<rightharpoonup> ref"
  edges :: "ref Edge list"
  width :: number
  height :: number
  weightFactor :: number
  playing :: bool
  primaryDark :: string
  primaryMid :: string
  primaryLight :: string
  secondaryDark :: string
  secondaryMid :: string
  tertiaryMid :: string

text \<open>
  What the code throws. The source throws strings:
  \<open>DuplicateNodeError\<close> is \<^verbatim>\<open>"A node already exists with that id."\<close>,
  \<open>NodeNotFoundError\<close> is
  \<^verbatim>\<open>"Path can only be calculated between two nodes in the network."\<close> and
  \<open>PathNotFoundError\<close> is \<^verbatim>\<open>"Path not found."\<close>.
\<close>

datatype error = DuplicateNodeError | NodeNotFoundError | PathNotFoundError

text \<open>
  The values that \<^verbatim>\<open>this.nodeDictionary[k]\<close> can give: a node, a number, string or
  boolean (a field of a node, see \<open>dictGet\<close>), \<^verbatim>\<open>undefined\<close>, or an object or
  function that is not a node. The last are members that the dictionary inherits;
  members of different names are different objects, so \<open>VObject k\<close>, the one found
  under the name \<open>k\<close>, is identical (\<^verbatim>\<open>===\<close>) to itself only. \<open>truthy\<close> is what
  \<^verbatim>\<open>!\<close> negates: objects are truthy; \<^verbatim>\<open>undefined\<close>, \<^verbatim>\<open>NaN\<close>, 0, the empty
  string and \<^verbatim>\<open>false\<close> are not.
\<close>

datatype jsval =
  VNode ref | VNumber number | VString string | VBool bool | VObject string | VUndefined

fun truthy :: "jsval \<Rightarrow> bool" where
  "truthy (VNode r) = True"
| "truthy (VNumber n) = (n \<noteq> NaN \<and> n \<noteq> Fin 0)"
| "truthy (VString s) = (s \<noteq> [])"
| "truthy (VBool b) = b"
| "truthy (VObject k) = True"
| "truthy VUndefined = False"

section \<open>Graph store\<close>

text \<open>The constructor of \<^verbatim>\<open>GraphNode\<close> with its defaults for \<^verbatim>\<open>weight\<close> and
  \<^verbatim>\<open>disp\<close>.\<close>

definition GraphNode_new ::
  "string \<Rightarrow> number \<Rightarrow> number \<Rightarrow> string \<Rightarrow> string \<Rightarrow> string \<Rightarrow> bool \<Rightarrow> GraphNode" where
  "GraphNode_new i px py sc fc lab dl =
     \<lparr>n_id = i, n_x = px, n_y = py, label = lab, displayLabel = dl, weight = Fin 1,
      disp = \<lparr>vx = Fin 0, vy = Fin 0\<rparr>, strokeColor = sc, fillColor = fc\<rparr>"

text \<open>
  The constructor of \<^verbatim>\<open>Graph\<close> called with a canvas and the default (empty)
  \<^verbatim>\<open>nodes\<close> and \<^verbatim>\<open>edges\<close> arrays and the default palette.
\<close>

definition Graph_new :: "Canvas \<Rightarrow> Graph" where
  "Graph_new c =
     \<lparr>canvas = c, objects = (\<lambda>_. GraphNode_new [] (Fin 0) (Fin 0) [] [] [] False),
      nextRef = 0, nodes = [], nodeIds = [], nodeDictionary = Map.empty, edges = [],
      width = clientWidth c, height = clientHeight c, weightFactor = Fin 1,
      playing = False,
      primaryDark = ''#90a4ae'', primaryMid = ''#b0bec5'', primaryLight = ''#fce4ec'',
      secondaryDark = ''#ffab91'', secondaryMid = ''#f06292'', tertiaryMid = ''#9575cd''\<rparr>"

text \<open>The object that \<^verbatim>\<open>addNode\<close> takes; \<open>None\<close> is \<^verbatim>\<open>null\<close> (the default of
  every optional field but \<^verbatim>\<open>label\<close> and \<^verbatim>\<open>displayLabel\<close>).\<close>

record AddNodeArgs =
  arg_id :: string
  arg_x :: "number option"
  arg_y :: "number option"
  arg_strokeColor :: "string option"
  arg_fillColor :: "string option"
  arg_label :: "string option"
  arg_displayLabel :: "bool option"

text \<open>The call \<^verbatim>\<open>addNode({ id: i })\<close>.\<close>

definition onlyId :: "string \<Rightarrow> AddNodeArgs" where
  "onlyId i = \<lparr>arg_id = i, arg_x = None, arg_y = None, arg_strokeColor = None,
     arg_fillColor = None, arg_label = Some [], arg_displayLabel = Some False\<rparr>"

text \<open>The call \<^verbatim>\<open>addNode({ id: i, x: px, y: py })\<close>.\<close>

definition nodeAt :: "string \<Rightarrow> real \<Rightarrow> real \<Rightarrow> AddNodeArgs" where
  "nodeAt i px py = (onlyId i)\<lparr>arg_x := Some (Fin px), arg_y := Some (Fin py)\<rparr>"

text \<open>\<^verbatim>\<open>Math.random() * (extent - 20) + 10\<close>, drawn only when the coordinate is
  \<^verbatim>\<open>null\<close>.\<close>

definition coordOrRandom :: "number option \<Rightarrow> number \<Rightarrow> rand \<Rightarrow> number \<times> rand" where
  "coordOrRandom c extent rnd =
     (case c of
        None \<Rightarrow> (js_add (js_mul (rnd_hd rnd) (js_sub extent (Fin 20))) (Fin 10), rnd_tl rnd)
      | Some v \<Rightarrow> (v, rnd))"

text \<open>
  \<^verbatim>\<open>addNode\<close> returns the new node, or throws when the id is in \<^verbatim>\<open>nodeIds\<close>. A
  method that can throw returns its outcome together with the store as the call left
  it, so that what a failed call did to the store is part of the result. The
  \<^verbatim>\<open>return\<close> after the \<^verbatim>\<open>throw\<close> in the source cannot be reached.
\<close>

definition addNode :: "Graph \<Rightarrow> AddNodeArgs \<Rightarrow> rand \<Rightarrow> (error + ref) \<times> Graph \<times> rand" where
  "addNode g a rnd =
     (if arg_id a \<notin> set (nodeIds g) then
        (let (px, rnd1) = coordOrRandom (arg_x a) (width g) rnd;
             (py, rnd2) = coordOrRandom (arg_y a) (height g) rnd1;
             newNode = GraphNode_new (arg_id a) px py
               (case arg_strokeColor a of None \<Rightarrow> primaryDark g | Some c \<Rightarrow> c)
               (case arg_fillColor a of None \<Rightarrow> primaryMid g | Some c \<Rightarrow> c)
               (case arg_label a of None \<Rightarrow> [] | Some l \<Rightarrow> l)
               (case arg_displayLabel a of None \<Rightarrow> False | Some d \<Rightarrow> d);
             r = nextRef g
         in (Inr r,
              g\<lparr>objects := (objects g)(r := newNode), nextRef := Suc r,
                nodes := nodes g @ [r], nodeIds := nodeIds g @ [arg_id a],
                nodeDictionary := (nodeDictionary g)(arg_id a \<mapsto> r)\<rparr>,
              rnd2))
      else (Inl DuplicateNodeError, g, rnd))"

text \<open>
  \<^verbatim>\<open>addEdge\<close> returns nothing and never throws. The model returns the store and the
  lines written with \<^verbatim>\<open>console.error\<close>. The dictionary lookups happen only after both
  ids were found in \<^verbatim>\<open>nodeIds\<close>; a key missing there would store \<^verbatim>\<open>undefined\<close> as
  an endpoint, which the store's own operations never produce, and the model then adds
  no edge.
\<close>

definition addEdge :: "Graph \<Rightarrow> string \<Rightarrow> string \<Rightarrow> Graph \<times> string list" where
  "addEdge g sourceId targetId =
     (if sourceId \<in> set (nodeIds g) then
        (if targetId \<in> set (nodeIds g) then
           (case (nodeDictionary g sourceId, nodeDictionary g targetId) of
              (Some s, Some t) \<Rightarrow> (g\<lparr>edges := edges g @ [\<lparr>source = s, target = t\<rparr>]\<rparr>, [])
            | _ \<Rightarrow> (g, []))
         else (g, [''Graph does not include a node with id '' @ targetId]))
      else (g, [''Graph does not include a node with id '' @ sourceId]))"

definition deleteAllNodes :: "Graph \<Rightarrow> Graph" where
  "deleteAllNodes g = g\<lparr>nodes := [], edges := [], nodeIds := [], nodeDictionary := Map.empty\<rparr>"

section \<open>Graph analysis\<close>

text \<open>\<^verbatim>\<open>containsNode\<close> is called with the result of a dictionary lookup and compares
  it with nodes only, so all that matters of the result is which node it is, if any:
  \<open>None\<close> is \<^verbatim>\<open>undefined\<close> or any other value that is not a node, identical to no
  node.\<close>

definition containsNode :: "ref Edge \<Rightarrow> ref option \<Rightarrow> bool" where
  "containsNode edge node = (Some (source edge) = node \<or> Some (target edge) = node)"

fun degreeLoop :: "ref Edge list \<Rightarrow> ref option \<Rightarrow> nat \<Rightarrow> nat" where
  "degreeLoop [] node degreeCounter = degreeCounter"
| "degreeLoop (edge # rest) node degreeCounter =
     degreeLoop rest node (if containsNode edge node then degreeCounter + 1 else degreeCounter)"

definition degree :: "Graph \<Rightarrow> string \<Rightarrow> nat" where
  "degree g nodeId = degreeLoop (edges g) (nodeDictionary g nodeId) 0"

text \<open>
  Both searches keep a queue of \<^verbatim>\<open>{node, depth}\<close> objects, here pairs, and an array
  \<^verbatim>\<open>covered\<close>; \<^verbatim>\<open>queue.shift()\<close> takes the head. \<open>nextLevelNodes\<close> is the
  concatenation of the targets of the edges leaving \<^verbatim>\<open>currNode\<close> and the sources of
  the edges entering it. \<open>enqueueUncovered\<close> is the \<^verbatim>\<open>for\<close> loop over it, which
  tests \<^verbatim>\<open>covered\<close> as updated by the iterations before.
\<close>

definition nextLevelNodes :: "'n Edge list \<Rightarrow> 'n \<Rightarrow> 'n list" where
  "nextLevelNodes es currNode =
     map target (filter (\<lambda>e. source e = currNode) es)
     @ map source (filter (\<lambda>e. target e = currNode) es)"

fun enqueueUncovered ::
  "'n list \<Rightarrow> nat \<Rightarrow> ('n \<times> nat) list \<Rightarrow> 'n list \<Rightarrow> ('n \<times> nat) list \<times> 'n list" where
  "enqueueUncovered [] depth queue covered = (queue, covered)"
| "enqueueUncovered (node # rest) depth queue covered =
     (if node \<notin> set covered
      then enqueueUncovered rest depth (queue @ [(node, depth + 1)]) (covered @ [node])
      else enqueueUncovered rest depth queue covered)"

text \<open>The nodes that occur in an edge. Each call of a search takes one entry from the
  queue and adds one entry for every node it adds to \<^verbatim>\<open>covered\<close>, so the length of
  the queue plus the number of endpoints not yet covered goes down by one.\<close>

definition endpoints :: "'n Edge list \<Rightarrow> 'n set" where
  "endpoints es = source ` set es \<union> target ` set es"

lemma nextLevelNodes_endpoints: "set (nextLevelNodes es u) \<subseteq> endpoints es"
  by (auto simp: nextLevelNodes_def endpoints_def)

lemma enqueueUncovered_measure:
  assumes "finite V" and "set ns \<subseteq> V"
    and "enqueueUncovered ns d q c = (q', c')"
  shows "length q' + card (V - set c') = length q + card (V - set c)"
  using assms(2,3)
proof (induction ns arbitrary: q c)
  case Nil
  then show ?case by simp
next
  case (Cons n ns)
  show ?case
  proof (cases "n \<in> set c")
    case True
    with Cons show ?thesis by simp
  next
    case False
    have nV: "n \<in> V - set c"
      using Cons.prems(1) False by simp
    have step: "enqueueUncovered ns d (q @ [(n, d + 1)]) (c @ [n]) = (q', c')"
      using Cons.prems(2) False by simp
    have "length q' + card (V - set c') =
            length (q @ [(n, d + 1)]) + card (V - set (c @ [n]))"
      using Cons.IH [OF _ step] Cons.prems(1) by simp
    moreover have "V - set (c @ [n]) = (V - set c) - {n}"
      by auto
    moreover have "card ((V - set c) - {n}) = card (V - set c) - 1"
      using nV by simp
    moreover have "0 < card (V - set c)"
      using nV assms(1) by (metis card_gt_0_iff empty_iff finite_Diff)
    ultimately show ?thesis by simp
  qed
qed

lemma search_step_decreases:
  assumes "enqueueUncovered (nextLevelNodes es u) d q c = (q', c')"
  shows "length q' + card (endpoints es - set c') < length ((u, d) # q) + card (endpoints es - set c)"
proof -
  have "finite (endpoints es)"
    by (simp add: endpoints_def)
  from enqueueUncovered_measure [OF this nextLevelNodes_endpoints assms]
  show ?thesis by simp
qed

text \<open>\<^verbatim>\<open>breadthFirstSearch\<close> returns the depth at which \<^verbatim>\<open>endNode\<close> leaves the queue
  and throws when the queue is empty.\<close>

function breadthFirstSearch ::
  "'n Edge list \<Rightarrow> ('n \<times> nat) list \<Rightarrow> 'n \<Rightarrow> 'n list \<Rightarrow> error + nat" where
  "breadthFirstSearch es [] endNode covered = Inl PathNotFoundError"
| "breadthFirstSearch es ((currNode, depth) # queue) endNode covered =
     (if currNode = endNode then Inr depth
      else (case enqueueUncovered (nextLevelNodes es currNode) depth queue covered of
              (queue', covered') \<Rightarrow> breadthFirstSearch es queue' endNode covered'))"
  by pat_completeness auto
termination
proof (relation "measure (\<lambda>(es, queue, endNode, covered).
        length queue + card (endpoints es - set covered))", goal_cases)
  case 1
  show ?case by simp
next
  case (2 es currNode depth queue endNode covered q' c')
  from 2(2) [symmetric] show ?case
    using search_step_decreases [of es currNode depth queue covered q' c'] by simp
qed

text \<open>
  The expression \<^verbatim>\<open>this.nodeDictionary[k]\<close>. The dictionary is created as \<^verbatim>\<open>{}\<close>,
  a plain object whose prototype is \<^verbatim>\<open>Object.prototype\<close>: a key that was stored
  gives its node, and any other key is looked up along the prototype chain.
  \<open>objectPrototypeKeys\<close> are the names of the members of \<^verbatim>\<open>Object.prototype\<close>; all
  are functions but \<^verbatim>\<open>__proto__\<close>, which gives the prototype itself. The assignment
  \<^verbatim>\<open>this.nodeDictionary[id] = newNode\<close> with the id \<^verbatim>\<open>__proto__\<close> makes the node the
  prototype of the dictionary instead of storing a key; from then on the key
  \<^verbatim>\<open>__proto__\<close> gives that node, and a key that was not stored gives the node's field
  of that name (\<open>fieldOf\<close>), or else the member inherited through the node.
\<close>

definition objectPrototypeKeys :: "string list" where
  "objectPrototypeKeys =
     [''constructor'', ''__defineGetter__'', ''__defineSetter__'', ''hasOwnProperty'',
      ''__lookupGetter__'', ''__lookupSetter__'', ''isPrototypeOf'',
      ''propertyIsEnumerable'', ''toString'', ''valueOf'', ''__proto__'',
      ''toLocaleString'']"

definition inherited :: "string \<Rightarrow> jsval" where
  "inherited k = (if k \<in> set objectPrototypeKeys then VObject k else VUndefined)"

definition fieldOf :: "GraphNode \<Rightarrow> string \<Rightarrow> jsval option" where
  "fieldOf n k =
     (if k = ''id'' then Some (VString (n_id n))
      else if k = ''x'' then Some (VNumber (n_x n))
      else if k = ''y'' then Some (VNumber (n_y n))
      else if k = ''label'' then Some (VString (label n))
      else if k = ''displayLabel'' then Some (VBool (displayLabel n))
      else if k = ''weight'' then Some (VNumber (weight n))
      else if k = ''disp'' then Some (VObject ''disp'')
      else if k = ''strokeColor'' then Some (VString (strokeColor n))
      else if k = ''fillColor'' then Some (VString (fillColor n))
      else None)"

definition dictGet :: "Graph \<Rightarrow> string \<Rightarrow> jsval" where
  "dictGet g k =
     (case nodeDictionary g k of
        Some r \<Rightarrow> VNode r
      | None \<Rightarrow>
          (case nodeDictionary g ''__proto__'' of
             None \<Rightarrow> inherited k
           | Some p \<Rightarrow>
               (case fieldOf (objects g p) k of
                  Some v \<Rightarrow> v
                | None \<Rightarrow> inherited k)))"

text \<open>The array \<^verbatim>\<open>this.edges\<close> as the search started by \<^verbatim>\<open>shortestPath\<close> sees it:
  the endpoints are compared with the results of the two lookups.\<close>

definition edgeValues :: "ref Edge list \<Rightarrow> jsval Edge list" where
  "edgeValues es = map (\<lambda>e. \<lparr>source = VNode (source e), target = VNode (target e)\<rparr>) es"

text \<open>\<^verbatim>\<open>shortestPath\<close> throws when one of the two lookups gives a falsy value, and
  otherwise starts the search with the first value in the queue and nothing
  covered. The search compares with \<^verbatim>\<open>===\<close>, which on the values that enter it is
  equality: the one value not identical to itself, \<^verbatim>\<open>NaN\<close>, is falsy.\<close>

definition shortestPath :: "Graph \<Rightarrow> string \<Rightarrow> string \<Rightarrow> error + nat" where
  "shortestPath g startId endId =
     (let startNode = dictGet g startId;
          endNode = dictGet g endId
      in if \<not> truthy startNode \<or> \<not> truthy endNode then Inl NodeNotFoundError
         else breadthFirstSearch (edgeValues (edges g)) [(startNode, 0)] endNode [])"

text \<open>\<^verbatim>\<open>connectedComponentMapBF\<close> is the same search without a destination; it returns
  \<^verbatim>\<open>covered\<close> when the queue is empty.\<close>

function connectedComponentMapBF ::
  "'n Edge list \<Rightarrow> ('n \<times> nat) list \<Rightarrow> 'n list \<Rightarrow> 'n list" where
  "connectedComponentMapBF es [] covered = covered"
| "connectedComponentMapBF es ((currNode, depth) # queue) covered =
     (case enqueueUncovered (nextLevelNodes es currNode) depth queue covered of
        (queue', covered') \<Rightarrow> connectedComponentMapBF es queue' covered')"
  by pat_completeness auto
termination
proof (relation "measure (\<lambda>(es, queue, covered).
        length queue + card (endpoints es - set covered))", goal_cases)
  case 1
  show ?case by simp
next
  case (2 es currNode depth queue covered q' c')
  from 2(1) [symmetric] show ?case
    using search_step_decreases [of es currNode depth queue covered q' c'] by simp
qed

text \<open>
  \<^verbatim>\<open>findLargestComponent\<close>: the first loop runs over \<^verbatim>\<open>this.nodes\<close> and starts a
  search, with the node in the queue and an empty \<^verbatim>\<open>covered\<close>, from every node that
  is not in \<^verbatim>\<open>runningCoveredList\<close>; the second loop keeps the first component that is
  strictly longer than every one before it, starting from the empty array.
\<close>

fun componentsLoop ::
  "ref Edge list \<Rightarrow> ref list \<Rightarrow> ref list \<Rightarrow> ref list list \<Rightarrow> ref list list" where
  "componentsLoop es [] runningCoveredList comps = comps"
| "componentsLoop es (node # rest) runningCoveredList comps =
     (if node \<notin> set runningCoveredList then
        (let connectedComponent = connectedComponentMapBF es [(node, 0)] []
         in componentsLoop es rest (runningCoveredList @ connectedComponent)
              (comps @ [connectedComponent]))
      else componentsLoop es rest runningCoveredList comps)"

fun largestLoop :: "ref list list \<Rightarrow> ref list \<Rightarrow> ref list" where
  "largestLoop [] largestComponent = largestComponent"
| "largestLoop (component # rest) largestComponent =
     largestLoop rest
       (if length component > length largestComponent then component else largestComponent)"

definition findLargestComponent :: "Graph \<Rightarrow> ref list" where
  "findLargestComponent g = largestLoop (componentsLoop (edges g) (nodes g) [] []) []"

section \<open>Network generator\<close>

text \<open>
  The template \<^verbatim>\<open>`${nodePrefix}${i}`\<close> appends to the prefix the decimal numeral of the
  loop index, a non-negative integer.
\<close>

definition digitChar :: "nat \<Rightarrow> char" where
  "digitChar d = ''0123456789'' ! d"

function decimal :: "nat \<Rightarrow> string" where
  "decimal n = (if n < 10 then [digitChar n] else decimal (n div 10) @ [digitChar (n mod 10)])"
  by pat_completeness auto
termination
  by (relation "measure (\<lambda>n. n)") auto

declare decimal.simps [simp del]

text \<open>
  \<^verbatim>\<open>generateRandomNetwork(n, p, nodePrefix)\<close> for a node count \<open>n\<close>. The first loop
  calls \<^verbatim>\<open>addNode({ id })\<close>; a throw of \<^verbatim>\<open>addNode\<close> ends the method with the store
  as the calls before left it. The nested loops draw one random value for every pair
  \<open>i < j\<close> and call \<^verbatim>\<open>addEdge\<close> when the value is \<^verbatim>\<open><= p\<close>. What \<^verbatim>\<open>addEdge\<close>
  writes to the console is dropped here.
\<close>

function addNodesLoop ::
  "string \<Rightarrow> nat \<Rightarrow> nat \<Rightarrow> Graph \<Rightarrow> rand \<Rightarrow> (error + unit) \<times> Graph \<times> rand" where
  "addNodesLoop nodePrefix n i g rnd =
     (if i < n then
        (case addNode g (onlyId (nodePrefix @ decimal i)) rnd of
           (Inl err, g', rnd') \<Rightarrow> (Inl err, g', rnd')
         | (Inr newNode, g', rnd') \<Rightarrow> addNodesLoop nodePrefix n (i + 1) g' rnd')
      else (Inr (), g, rnd))"
  by pat_completeness auto
termination
  by (relation "measure (\<lambda>(nodePrefix, n, i, g, rnd). n - i)") auto

declare addNodesLoop.simps [simp del]

function edgesInnerLoop ::
  "string \<Rightarrow> nat \<Rightarrow> number \<Rightarrow> nat \<Rightarrow> nat \<Rightarrow> Graph \<Rightarrow> rand \<Rightarrow> Graph \<times> rand" where
  "edgesInnerLoop nodePrefix n p i j g rnd =
     (if j < n then
        (if js_le (rnd_hd rnd) p
         then edgesInnerLoop nodePrefix n p i (j + 1)
                (fst (addEdge g (nodePrefix @ decimal i) (nodePrefix @ decimal j))) (rnd_tl rnd)
         else edgesInnerLoop nodePrefix n p i (j + 1) g (rnd_tl rnd))
      else (g, rnd))"
  by pat_completeness auto
termination
  by (relation "measure (\<lambda>(nodePrefix, n, p, i, j, g, rnd). n - j)") auto

declare edgesInnerLoop.simps [simp del]

function edgesOuterLoop ::
  "string \<Rightarrow> nat \<Rightarrow> number \<Rightarrow> nat \<Rightarrow> Graph \<Rightarrow> rand \<Rightarrow> Graph \<times> rand" where
  "edgesOuterLoop nodePrefix n p i g rnd =
     (if i < n then
        (case edgesInnerLoop nodePrefix n p i (i + 1) g rnd of
           (g', rnd') \<Rightarrow> edgesOuterLoop nodePrefix n p (i + 1) g' rnd')
      else (g, rnd))"
  by pat_completeness auto
termination
  by (relation "measure (\<lambda>(nodePrefix, n, p, i, g, rnd). n - i)") auto

declare edgesOuterLoop.simps [simp del]

definition generateRandomNetwork ::
  "Graph \<Rightarrow> nat \<Rightarrow> number \<Rightarrow> string \<Rightarrow> rand \<Rightarrow> (error + unit) \<times> Graph \<times> rand" where
  "generateRandomNetwork g n p nodePrefix rnd =
     (case addNodesLoop nodePrefix n 0 g rnd of
        (Inl err, g', rnd') \<Rightarrow> (Inl err, g', rnd')
      | (Inr u, g', rnd') \<Rightarrow>
          (case edgesOuterLoop nodePrefix n p 0 g' rnd' of
             (g'', rnd'') \<Rightarrow> (Inr (), g'', rnd'')))"

section \<open>Layout engine\<close>

text \<open>The helper functions of the solver. \<^verbatim>\<open>dist\<close> is named \<open>dist_vec\<close>.\<close>

definition fa :: "number \<Rightarrow> number \<Rightarrow> number \<Rightarrow> number" where
  "fa z k c = js_mul (js_div (js_pow2 z) k) c"

definition fr :: "number \<Rightarrow> number \<Rightarrow> number \<Rightarrow> number" where
  "fr z k c = js_mul (js_div (js_pow2 k) z) c"

definition dist_vec :: "vec \<Rightarrow> number" where
  "dist_vec v = js_sqrt (js_add (js_pow2 (vx v)) (js_pow2 (vy v)))"

definition deltaF :: "number \<Rightarrow> number \<Rightarrow> number" where
  "deltaF a b =
     (let dif = js_sub a b
      in if js_lt dif (Fin 0) then js_min dif (Fin (- 0.0001)) else js_max dif (Fin 0.0001))"

text \<open>
  A pass works on the node objects through the arrays \<^verbatim>\<open>net.nodes\<close> and
  \<^verbatim>\<open>net.edges\<close>, which hold references: the model passes the object store along and
  writes every assignment to a field as an update at the node's address, in the order
  of the source, so that an edge whose two ends are one node reads what it has just
  written. A \<^verbatim>\<open>for ... of\<close> loop over an array that the body does not change is a
  \<open>fold\<close> of the body over the array.

  Repulsion: the body of the inner loop, for one \<^verbatim>\<open>node\<close> and one \<^verbatim>\<open>otherNode\<close>.
\<close>

definition repulseOne ::
  "number \<Rightarrow> number \<Rightarrow> ref \<Rightarrow> ref \<Rightarrow> (ref \<Rightarrow> GraphNode) \<Rightarrow> (ref \<Rightarrow> GraphNode)" where
  "repulseOne k repulsionConstant node otherNode objs =
     (if node \<noteq> otherNode then
        (let delta = \<lparr>vx = deltaF (n_x (objs node)) (n_x (objs otherNode)),
                      vy = deltaF (n_y (objs node)) (n_y (objs otherNode))\<rparr>;
             distanceDelta = dist_vec delta;
             newDispX = js_add (vx (disp (objs node)))
                          (js_mul (js_div (vx delta) distanceDelta)
                             (fr distanceDelta k repulsionConstant));
             newDispY = js_add (vy (disp (objs node)))
                          (js_mul (js_div (vy delta) distanceDelta)
                             (fr distanceDelta k repulsionConstant))
         in objs(node := (objs node)\<lparr>disp := \<lparr>vx = newDispX, vy = newDispY\<rparr>\<rparr>))
      else objs)"

definition repulsion ::
  "number \<Rightarrow> number \<Rightarrow> ref list \<Rightarrow> (ref \<Rightarrow> GraphNode) \<Rightarrow> (ref \<Rightarrow> GraphNode)" where
  "repulsion k repulsionConstant ns objs =
     fold (\<lambda>node objs1.
             fold (repulseOne k repulsionConstant node) ns
               (objs1(node := (objs1 node)\<lparr>disp := \<lparr>vx = Fin 0, vy = Fin 0\<rparr>\<rparr>)))
       ns objs"

text \<open>Attraction: the body of the loop over the edges, four assignments.\<close>

definition attractOne ::
  "number \<Rightarrow> number \<Rightarrow> ref Edge \<Rightarrow> (ref \<Rightarrow> GraphNode) \<Rightarrow> (ref \<Rightarrow> GraphNode)" where
  "attractOne k attractionConstant edge objs =
     (let s = source edge; t = target edge;
          delta = \<lparr>vx = deltaF (n_x (objs s)) (n_x (objs t)),
                   vy = deltaF (n_y (objs s)) (n_y (objs t))\<rparr>;
          distanceDelta = dist_vec delta;
          pullX = js_mul (js_div (vx delta) distanceDelta) (fa distanceDelta k attractionConstant);
          pullY = js_mul (js_div (vy delta) distanceDelta) (fa distanceDelta k attractionConstant);
          objs1 = objs(s := (objs s)\<lparr>disp := (disp (objs s))\<lparr>vx := js_sub (vx (disp (objs s))) pullX\<rparr>\<rparr>);
          objs2 = objs1(s := (objs1 s)\<lparr>disp := (disp (objs1 s))\<lparr>vy := js_sub (vy (disp (objs1 s))) pullY\<rparr>\<rparr>);
          objs3 = objs2(t := (objs2 t)\<lparr>disp := (disp (objs2 t))\<lparr>vx := js_add (vx (disp (objs2 t))) pullX\<rparr>\<rparr>);
          objs4 = objs3(t := (objs3 t)\<lparr>disp := (disp (objs3 t))\<lparr>vy := js_add (vy (disp (objs3 t))) pullY\<rparr>\<rparr>)
      in objs4)"

definition attraction ::
  "number \<Rightarrow> number \<Rightarrow> ref Edge list \<Rightarrow> (ref \<Rightarrow> GraphNode) \<Rightarrow> (ref \<Rightarrow> GraphNode)" where
  "attraction k attractionConstant es objs = fold (attractOne k attractionConstant) es objs"

text \<open>Position update: \<^verbatim>\<open>tempX\<close> and \<^verbatim>\<open>tempY\<close>, which both solvers compute with
  the same expressions, and then the clamp, which differs.\<close>

definition tempX :: "number \<Rightarrow> GraphNode \<Rightarrow> number" where
  "tempX t node =
     js_add (n_x node)
       (js_mul (js_div (vx (disp node)) (dist_vec (disp node))) (js_min (js_abs (vx (disp node))) t))"

definition tempY :: "number \<Rightarrow> GraphNode \<Rightarrow> number" where
  "tempY t node =
     js_add (n_y node)
       (js_mul (js_div (vy (disp node)) (dist_vec (disp node))) (js_min (js_abs (vy (disp node))) t))"

definition updateOne ::
  "number \<Rightarrow> number \<Rightarrow> number \<Rightarrow> ref \<Rightarrow> (ref \<Rightarrow> GraphNode) \<Rightarrow> (ref \<Rightarrow> GraphNode)" where
  "updateOne w h t node objs =
     (let tx = tempX t (objs node);
          ty = tempY t (objs node);
          objs1 = objs(node := (objs node)\<lparr>n_x := js_min (js_sub w (Fin 10)) (js_max (Fin 10) tx)\<rparr>)
      in objs1(node := (objs1 node)\<lparr>n_y := js_min (js_sub h (Fin 10)) (js_max (Fin 20) ty)\<rparr>))"

definition updateOneAnimate ::
  "number \<Rightarrow> number \<Rightarrow> number \<Rightarrow> ref \<Rightarrow> (ref \<Rightarrow> GraphNode) \<Rightarrow> (ref \<Rightarrow> GraphNode)" where
  "updateOneAnimate w h t node objs =
     (let tx = tempX t (objs node);
          ty = tempY t (objs node);
          objs1 = objs(node := (objs node)\<lparr>n_x := js_min (js_sub w (Fin 20)) (js_max (Fin 20) tx)\<rparr>)
      in objs1(node := (objs1 node)\<lparr>n_y := js_min (js_sub h (Fin 20)) (js_max (Fin 20) ty)\<rparr>))"

text \<open>
  The state of the \<^verbatim>\<open>for\<close> loop over \<^verbatim>\<open>i\<close>: the temperature \<^verbatim>\<open>t\<close> and the object
  store. \<open>passes\<close> is not a variable of the source: it counts how often the body of
  the loop has run. The values fixed before the loop are gathered in \<open>frParams\<close>.
\<close>

record frState =
  fr_t :: number
  fr_objects :: "ref \<Rightarrow> GraphNode"
  passes :: nat

record frParams =
  p_k :: number
  p_attraction :: number
  p_repulsion :: number
  p_width :: number
  p_height :: number
  p_nodes :: "ref list"
  p_edges :: "ref Edge list"

text \<open>The three loops of a pass, before the clamp.\<close>

definition forces :: "frParams \<Rightarrow> (ref \<Rightarrow> GraphNode) \<Rightarrow> (ref \<Rightarrow> GraphNode)" where
  "forces P objs =
     attraction (p_k P) (p_attraction P) (p_edges P)
       (repulsion (p_k P) (p_repulsion P) (p_nodes P) objs)"

definition frPass :: "frParams \<Rightarrow> nat \<Rightarrow> frState \<Rightarrow> frState" where
  "frPass P i st =
     \<lparr>fr_t = js_sub (fr_t st) (js_div (Fin 10) (Fin (real i))),
      fr_objects = fold (updateOne (p_width P) (p_height P) (fr_t st)) (p_nodes P)
                     (forces P (fr_objects st)),
      passes = passes st + 1\<rparr>"

definition frPassAnimate :: "frParams \<Rightarrow> nat \<Rightarrow> frState \<Rightarrow> frState" where
  "frPassAnimate P i st =
     \<lparr>fr_t = js_sub (fr_t st) (js_div (Fin 10) (Fin (real i))),
      fr_objects = fold (updateOneAnimate (p_width P) (p_height P) (fr_t st)) (p_nodes P)
                     (forces P (fr_objects st)),
      passes = passes st + 1\<rparr>"

text \<open>\<^verbatim>\<open>for (let i = 1; i < 80; i++)\<close>.\<close>

function frLoop :: "frParams \<Rightarrow> nat \<Rightarrow> frState \<Rightarrow> frState" where
  "frLoop P i st = (if i < 80 then frLoop P (i + 1) (frPass P i st) else st)"
  by pat_completeness auto
termination
  by (relation "measure (\<lambda>(P, i, st). 80 - i)") auto

declare frLoop.simps [simp del]

definition frInit :: "Graph \<Rightarrow> number \<Rightarrow> number \<Rightarrow> frParams" where
  "frInit g attractionConstant repulsionConstant =
     (let w = clientWidth (canvas g); h = clientHeight (canvas g)
      in \<lparr>p_k = js_sqrt (js_div (js_mul w h) (Fin (real (length (nodes g))))),
          p_attraction = attractionConstant, p_repulsion = repulsionConstant,
          p_width = w, p_height = h, p_nodes = nodes g, p_edges = edges g\<rparr>)"

definition frRun :: "Graph \<Rightarrow> number \<Rightarrow> number \<Rightarrow> frState" where
  "frRun g attractionConstant repulsionConstant =
     frLoop (frInit g attractionConstant repulsionConstant) 1
       \<lparr>fr_t = Fin 50, fr_objects = objects g, passes = 0\<rparr>"

text \<open>\<^verbatim>\<open>fruchtermanReingold\<close> leaves the node objects as the last pass left them. The
  final \<^verbatim>\<open>refresh()\<close> draws on the canvas and changes nothing in the store.\<close>

definition fruchtermanReingold :: "Graph \<Rightarrow> number \<Rightarrow> number \<Rightarrow> Graph" where
  "fruchtermanReingold g attractionConstant repulsionConstant =
     g\<lparr>objects := fr_objects (frRun g attractionConstant repulsionConstant)\<rparr>"

text \<open>
  The animated solver suspends after every pass (\<^verbatim>\<open>await\<close>); while it is suspended
  other code can set \<^verbatim>\<open>playing\<close> to false. \<open>stop i\<close> says whether that happened
  after pass \<open>i\<close>; the flag is read at the top of the next pass. The flag is false
  when the solver returns.
\<close>

function frLoopAnimate :: "frParams \<Rightarrow> (nat \<Rightarrow> bool) \<Rightarrow> nat \<Rightarrow> bool \<Rightarrow> frState \<Rightarrow> frState" where
  "frLoopAnimate P stop i isPlaying st =
     (if i < 80 then
        (if \<not> isPlaying then st
         else frLoopAnimate P stop (i + 1) (\<not> stop i) (frPassAnimate P i st))
      else st)"
  by pat_completeness auto
termination
  by (relation "measure (\<lambda>(P, stop, i, isPlaying, st). 80 - i)") auto

declare frLoopAnimate.simps [simp del]

definition fruchtermanReingoldAnimate ::
  "Graph \<Rightarrow> number \<Rightarrow> number \<Rightarrow> (nat \<Rightarrow> bool) \<Rightarrow> Graph" where
  "fruchtermanReingoldAnimate g attractionConstant repulsionConstant stop =
     g\<lparr>objects := fr_objects
          (frLoopAnimate (frInit g attractionConstant repulsionConstant) stop 1 True
             \<lparr>fr_t = Fin 50, fr_objects = objects g, passes = 0\<rparr>),
       playing := False\<rparr>"

section \<open>Example stores\<close>

text \<open>Stores built with the operations above, used to run the code on concrete inputs.
  \<open>thenAddNode\<close> and \<open>thenAddEdge\<close> keep the store of a call and drop what it
  returned.\<close>

definition canvas500 :: Canvas where
  "canvas500 = \<lparr>clientWidth = Fin 500, clientHeight = Fin 500\<rparr>"

definition thenAddNode :: "Graph \<Rightarrow> string \<Rightarrow> real \<Rightarrow> real \<Rightarrow> Graph" where
  "thenAddNode g i px py = fst (snd (addNode g (nodeAt i px py) (\<lambda>_. 0)))"

definition thenAddEdge :: "Graph \<Rightarrow> string \<Rightarrow> string \<Rightarrow> Graph" where
  "thenAddEdge g s t = fst (addEdge g s t)"

text \<open>One node \<^verbatim>\<open>a\<close> and no edge.\<close>

definition graphA :: Graph where
  "graphA = thenAddNode (Graph_new canvas500) ''a'' 100 100"

text \<open>One node \<^verbatim>\<open>a\<close> with an edge from \<^verbatim>\<open>a\<close> to \<^verbatim>\<open>a\<close>.\<close>

definition graphLoop :: Graph where
  "graphLoop = thenAddEdge graphA ''a'' ''a''"

text \<open>Two nodes \<^verbatim>\<open>a\<close>, \<^verbatim>\<open>b\<close> and the edge from \<^verbatim>\<open>a\<close> to \<^verbatim>\<open>b\<close>.\<close>

definition graphAB :: Graph where
  "graphAB = thenAddEdge (thenAddNode graphA ''b'' 200 200) ''a'' ''b''"

text \<open>Three nodes \<^verbatim>\<open>A\<close>, \<^verbatim>\<open>B\<close>, \<^verbatim>\<open>C\<close> joined as a path by the edges from
  \<^verbatim>\<open>A\<close> to \<^verbatim>\<open>B\<close> and from \<^verbatim>\<open>B\<close> to \<^verbatim>\<open>C\<close>.\<close>

definition graphABC :: Graph where
  "graphABC = thenAddEdge (thenAddEdge (thenAddNode (thenAddNode (thenAddNode
     (Graph_new canvas500) ''A'' 10 10) ''B'' 20 20) ''C'' 30 30) ''A'' ''B'') ''B'' ''C''"

text \<open>Six nodes in components of sizes 1, 3 and 2: \<^verbatim>\<open>s\<close> alone, the path
  \<^verbatim>\<open>a\<close>, \<^verbatim>\<open>b\<close>, \<^verbatim>\<open>c\<close>, and the pair \<^verbatim>\<open>d\<close>, \<^verbatim>\<open>e\<close>.\<close>

definition graph132 :: Graph where
  "graph132 = thenAddEdge (thenAddEdge (thenAddEdge
     (thenAddNode (thenAddNode (thenAddNode (thenAddNode (thenAddNode (thenAddNode
        (Graph_new canvas500) ''s'' 1 1) ''a'' 2 2) ''b'' 3 3) ''c'' 4 4) ''d'' 5 5) ''e'' 6 6)
     ''a'' ''b'') ''b'' ''c'') ''d'' ''e''"



text \<open>A store with one node, of id \<^verbatim>\<open>__proto__\<close>.\<close>

definition graphProto :: Graph where
  "graphProto = thenAddNode (Graph_new canvas500) ''__proto__'' 100 100"






section \<open>Notions used in the properties\<close>

text \<open>
  What the operations of the store keep true, starting from the constructor: no node
  and no id occurs twice, every node was allocated, the dictionary has exactly the ids
  of the id list as keys and exactly the nodes of the node array as values, and every
  edge joins nodes of the store.
\<close>

definition storeInv :: "Graph \<Rightarrow> bool" where
  "storeInv g \<longleftrightarrow>
     distinct (nodes g) \<and> distinct (nodeIds g)
     \<and> (\<forall>r \<in> set (nodes g). r < nextRef g)
     \<and> dom (nodeDictionary g) = set (nodeIds g)
     \<and> ran (nodeDictionary g) = set (nodes g)
     \<and> endpoints (edges g) \<subseteq> set (nodes g)"

text \<open>
  The reference notion for the searches: \<open>walk es n u v\<close> says that \<open>n\<close> edges of
  \<open>es\<close>, each taken in either direction, lead from \<open>u\<close> to \<open>v\<close>. A node is at
  distance \<open>d\<close> when a walk with \<open>d\<close> edges reaches it and no shorter one does
  (\<open>minWalk\<close>). The connected component of a node is the set of nodes that walks
  reach from it (\<open>reach\<close>).
\<close>

fun walk :: "'n Edge list \<Rightarrow> nat \<Rightarrow> 'n \<Rightarrow> 'n \<Rightarrow> bool" where
  "walk es 0 u v = (u = v)"
| "walk es (Suc n) u v =
     (\<exists>e \<in> set es. (walk es n u (source e) \<and> target e = v)
                  \<or> (walk es n u (target e) \<and> source e = v))"

definition minWalk :: "'n Edge list \<Rightarrow> nat \<Rightarrow> 'n \<Rightarrow> 'n \<Rightarrow> bool" where
  "minWalk es d s v \<longleftrightarrow> walk es d s v \<and> (\<forall>m<d. \<not> walk es m s v)"

definition reach :: "'n Edge list \<Rightarrow> 'n \<Rightarrow> 'n set" where
  "reach es v = {w. \<exists>n. walk es n v w}"

text \<open>
  The invariant of \<^verbatim>\<open>breadthFirstSearch\<close> started from \<open>s\<close> with destination \<open>e\<close>.
  The start node is not in \<^verbatim>\<open>covered\<close> at first, so the search can put it into the
  queue a second time, at a depth that is not its distance; by then all its neighbours
  are covered and it is not the destination. Such an entry is called inert: taking it
  from the queue adds nothing. Every queue entry carries the distance of its node or is
  inert; the depths in the queue are sorted and differ by at most one; every node
  within the depth of the head is covered or is the start; and every covered node that
  is not in the queue any more has been expanded.
\<close>

definition inert :: "'n Edge list \<Rightarrow> 'n \<Rightarrow> 'n list \<Rightarrow> 'n \<Rightarrow> bool" where
  "inert es e c v \<longleftrightarrow> v \<noteq> e \<and> set (nextLevelNodes es v) \<subseteq> set c"

definition bfs_inv ::
  "'n Edge list \<Rightarrow> 'n \<Rightarrow> 'n \<Rightarrow> ('n \<times> nat) list \<Rightarrow> 'n list \<Rightarrow> bool" where
  "bfs_inv es s e q c \<longleftrightarrow>
     sorted (map snd q)
     \<and> (\<forall>x \<in> set q. snd x \<le> Suc (snd (hd q)))
     \<and> ((q = [(s, 0)] \<and> c = []) \<or> fst ` set q \<subseteq> set c)
     \<and> (\<forall>x \<in> set q. minWalk es (snd x) s (fst x) \<or> inert es e c (fst x))
     \<and> (\<forall>v m. q \<noteq> [] \<and> m \<le> snd (hd q) \<and> walk es m s v \<longrightarrow> v \<in> set c \<union> {s})
     \<and> (\<forall>u \<in> set c \<union> {s}. u \<notin> fst ` set q \<longrightarrow> inert es e c u)"

text \<open>
  The invariant of \<^verbatim>\<open>connectedComponentMapBF\<close> started from \<open>v\<close> with an empty
  \<^verbatim>\<open>covered\<close>: every covered node is reached from \<open>v\<close> by a walk of at least one
  edge, every node in the queue is covered or is \<open>v\<close>, and every such node that is
  not in the queue has been expanded.
\<close>

definition cc_inv :: "'n Edge list \<Rightarrow> 'n \<Rightarrow> ('n \<times> nat) list \<Rightarrow> 'n list \<Rightarrow> bool" where
  "cc_inv es v q c \<longleftrightarrow>
     (\<forall>w \<in> set c. \<exists>n. walk es (Suc n) v w)
     \<and> fst ` set q \<subseteq> set c \<union> {v}
     \<and> (\<forall>u \<in> set c \<union> {v}. u \<notin> fst ` set q \<longrightarrow> set (nextLevelNodes es u) \<subseteq> set c)"

text \<open>
  The two loops of \<^verbatim>\<open>findLargestComponent\<close> as one: \<open>pickLoop\<close> keeps the best
  component so far instead of the array of all components. Its invariant, for the
  nodes \<open>P\<close> visited so far: \<^verbatim>\<open>runningCoveredList\<close> holds the components of the
  visited nodes that have an edge; the best component, unless it is still empty, is
  the component of a visited node and at least as large as the component of every
  visited node with an edge; and the nodes with an edge visited before the first node
  of the best component have strictly smaller components.
\<close>

fun pickLoop :: "ref Edge list \<Rightarrow> ref list \<Rightarrow> ref list \<Rightarrow> ref list \<Rightarrow> ref list" where
  "pickLoop es [] rcl best = best"
| "pickLoop es (u # ns) rcl best =
     (if u \<notin> set rcl then
        (let cc = connectedComponentMapBF es [(u, 0)] []
         in pickLoop es ns (rcl @ cc) (if length cc > length best then cc else best))
      else pickLoop es ns rcl best)"

definition pick_inv :: "ref Edge list \<Rightarrow> ref list \<Rightarrow> ref list \<Rightarrow> ref list \<Rightarrow> bool" where
  "pick_inv es P rcl b \<longleftrightarrow>
     set rcl = \<Union> (reach es ` (set P \<inter> endpoints es))
     \<and> distinct b
     \<and> (b = [] \<or> (\<exists>v \<in> set P. set b = reach es v))
     \<and> (\<forall>u \<in> set P \<inter> endpoints es. card (reach es u) \<le> length b)
     \<and> (\<forall>u \<in> set (takeWhile (\<lambda>x. x \<notin> set b) P) \<inter> endpoints es.
           card (reach es u) < length b)"

text \<open>
  For the network generator: \<open>allDraws Q rnd\<close> says that every value the random
  source will return satisfies \<open>Q\<close>; \<open>ids nodePrefix k\<close> is the id of the node with
  index \<open>k\<close>; \<open>named nodePrefix r0 m g\<close> says that the ids of the store are those of
  the indices below \<open>m\<close> and that the node with index \<open>k\<close> is the \<open>k\<close>-th object
  allocated from \<open>r0\<close> on; \<open>pairEdges r0 n i\<close> is the array of edges between the
  nodes with indices \<open>a < b < n\<close>, \<open>i \<le> a\<close>, in the order of the nested loops.
\<close>

definition allDraws :: "(real \<Rightarrow> bool) \<Rightarrow> rand \<Rightarrow> bool" where
  "allDraws Q rnd \<longleftrightarrow> (\<forall>k. Q (rnd k))"

definition ids :: "string \<Rightarrow> nat \<Rightarrow> string" where
  "ids pre k = pre @ decimal k"

definition named :: "string \<Rightarrow> nat \<Rightarrow> nat \<Rightarrow> Graph \<Rightarrow> bool" where
  "named pre r0 m g \<longleftrightarrow>
     set (nodeIds g) = ids pre ` {..<m} \<and> nextRef g = r0 + m
     \<and> (\<forall>k<m. nodeDictionary g (ids pre k) = Some (r0 + k))"

definition pairEdges :: "nat \<Rightarrow> nat \<Rightarrow> nat \<Rightarrow> ref Edge list" where
  "pairEdges r0 n i =
     concat (map (\<lambda>a. map (\<lambda>b. \<lparr>source = r0 + a, target = r0 + b\<rparr>) [Suc a..<n]) [i..<n])"

text \<open>A node is at a clamped position of the static or of the animated solver when its
  coordinates are results of that solver's clamp.\<close>

definition clampedStatic :: "number \<Rightarrow> number \<Rightarrow> GraphNode \<Rightarrow> bool" where
  "clampedStatic w h n \<longleftrightarrow>
     (\<exists>tx ty. n_x n = js_min (js_sub w (Fin 10)) (js_max (Fin 10) tx)
            \<and> n_y n = js_min (js_sub h (Fin 10)) (js_max (Fin 20) ty))"

definition clampedAnimate :: "number \<Rightarrow> number \<Rightarrow> GraphNode \<Rightarrow> bool" where
  "clampedAnimate w h n \<longleftrightarrow>
     (\<exists>tx ty. n_x n = js_min (js_sub w (Fin 20)) (js_max (Fin 20) tx)
            \<and> n_y n = js_min (js_sub h (Fin 20)) (js_max (Fin 20) ty))"

section \<open>Properties of the graph store\<close>

text \<open>The definitions that running the store operations on a concrete input unfolds.\<close>

lemmas store_defs =
  thenAddNode_def thenAddEdge_def canvas500_def Graph_new_def addNode_def addEdge_def
  nodeAt_def onlyId_def coordOrRandom_def GraphNode_new_def

text \<open>
  C6. \<^verbatim>\<open>addNode\<close> with an id that is already in the store throws the duplicate-id
  error and the store it leaves is the store it was given: the node sequence, the id
  list, the id-to-node mapping and the edge sequence are as before, and no random
  value has been drawn.
\<close>

theorem addNode_duplicate_unchanged:
  assumes "arg_id a \<in> set (nodeIds g)"
  shows "addNode g a rnd = (Inl DuplicateNodeError, g, rnd)
    \<and> nodes (fst (snd (addNode g a rnd))) = nodes g
    \<and> nodeIds (fst (snd (addNode g a rnd))) = nodeIds g
    \<and> nodeDictionary (fst (snd (addNode g a rnd))) = nodeDictionary g
    \<and> edges (fst (snd (addNode g a rnd))) = edges g"
  using assms by (simp add: addNode_def)

theorem addNode_duplicate_unchanged_witness:
  "arg_id (onlyId ''a'') \<in> set (nodeIds graphA)
   \<and> addNode graphA (onlyId ''a'') (\<lambda>_. 0) = (Inl DuplicateNodeError, graphA, (\<lambda>_. 0))"
proof -
  have h: "arg_id (onlyId ''a'') \<in> set (nodeIds graphA)"
    by (simp add: graphA_def store_defs)
  show ?thesis
    using h addNode_duplicate_unchanged [OF h, of "\<lambda>_. 0"] by simp
qed

text \<open>
  C7. \<^verbatim>\<open>addEdge\<close> with a source id or a target id that is not in the store adds no
  edge and leaves the store as it was; the call returns normally, having written one
  line with \<^verbatim>\<open>console.error\<close> that names the first missing id.
\<close>

theorem addEdge_absent_endpoint:
  assumes "sourceId \<notin> set (nodeIds g) \<or> targetId \<notin> set (nodeIds g)"
  shows "fst (addEdge g sourceId targetId) = g
    \<and> edges (fst (addEdge g sourceId targetId)) = edges g
    \<and> snd (addEdge g sourceId targetId) =
           [''Graph does not include a node with id '' @
              (if sourceId \<in> set (nodeIds g) then targetId else sourceId)]"
  using assms by (auto simp: addEdge_def)

theorem addEdge_absent_endpoint_witness:
  "''a'' \<in> set (nodeIds graphA) \<and> ''zz'' \<notin> set (nodeIds graphA)
   \<and> fst (addEdge graphA ''a'' ''zz'') = graphA
   \<and> snd (addEdge graphA ''a'' ''zz'') = [''Graph does not include a node with id zz'']"
proof -
  have h: "''a'' \<notin> set (nodeIds graphA) \<or> ''zz'' \<notin> set (nodeIds graphA)"
    by (simp add: graphA_def store_defs)
  have a: "''a'' \<in> set (nodeIds graphA)"
    by (simp add: graphA_def store_defs)
  show ?thesis
    using h a addEdge_absent_endpoint [OF h] by simp
qed

text \<open>The constructor establishes \<open>storeInv\<close> and every operation of the store
  keeps it.\<close>

lemma storeInv_new: "storeInv (Graph_new c)"
  by (simp add: storeInv_def Graph_new_def endpoints_def)

lemma storeInv_deleteAllNodes: "storeInv g \<Longrightarrow> storeInv (deleteAllNodes g)"
  by (simp add: storeInv_def deleteAllNodes_def endpoints_def)

lemma storeInv_addNode: 
  assumes "storeInv g"
  shows "storeInv (fst (snd (addNode g a rnd)))"
proof (cases "arg_id a \<in> set (nodeIds g)")
  case True
  with assms show ?thesis by (simp add: addNode_def)
next
  case False
  from assms have fresh: "nextRef g \<notin> set (nodes g)" by (auto simp: storeInv_def)
  from assms False have nd: "arg_id a \<notin> dom (nodeDictionary g)" by (simp add: storeInv_def)
  then have "ran ((nodeDictionary g)(arg_id a \<mapsto> nextRef g)) = insert (nextRef g) (ran (nodeDictionary g))"
    by (simp add: domIff)
  with assms False fresh show ?thesis
    by (auto simp: addNode_def storeInv_def Let_def split: prod.splits)
qed

lemma storeInv_addEdge:
  assumes "storeInv g"
  shows "storeInv (fst (addEdge g s t))"
proof -
  have "r \<in> set (nodes g)" if "nodeDictionary g k = Some r" for k r
    using assms that by (auto simp: storeInv_def ran_def)
  with assms show ?thesis
    by (auto simp: addEdge_def storeInv_def endpoints_def split: option.splits)
qed

text \<open>In such a store \<^verbatim>\<open>addEdge\<close> with two ids of the store adds exactly the edge
  between their nodes and writes nothing.\<close>

lemma addEdge_present:
  assumes "storeInv g" and "sourceId \<in> set (nodeIds g)" and "targetId \<in> set (nodeIds g)"
  shows "\<exists>s t. nodeDictionary g sourceId = Some s \<and> nodeDictionary g targetId = Some t
           \<and> addEdge g sourceId targetId
               = (g\<lparr>edges := edges g @ [\<lparr>source = s, target = t\<rparr>]\<rparr>, [])"
proof -
  from assms have "sourceId \<in> dom (nodeDictionary g)" "targetId \<in> dom (nodeDictionary g)"
    by (simp_all add: storeInv_def)
  then obtain s t where "nodeDictionary g sourceId = Some s" "nodeDictionary g targetId = Some t"
    by blast
  with assms(2,3) show ?thesis by (simp add: addEdge_def)
qed

section \<open>Properties of degree\<close>

lemma degreeLoop_count:
  "degreeLoop es node c = c + length (filter (\<lambda>e. containsNode e node) es)"
  by (induction es arbitrary: c) simp_all

text \<open>
  C3 as the code has it. For an id in the store, \<^verbatim>\<open>degree\<close> is the number of edges
  that have the node as source or as target, every such edge counted once: the two
  comparisons are joined by \<^verbatim>\<open>||\<close> into one test per edge, so that adding an edge
  from the node to itself raises its degree by one.
\<close>

theorem degree_counts_edges_once:
  assumes "nodeDictionary g nodeId = Some r"
  shows "degree g nodeId = length (filter (\<lambda>e. source e = r \<or> target e = r) (edges g))
    \<and> degree (g\<lparr>edges := edges g @ [\<lparr>source = r, target = r\<rparr>]\<rparr>) nodeId
           = degree g nodeId + 1"
  using assms by (simp add: degree_def degreeLoop_count containsNode_def)

theorem degree_counts_edges_once_witness:
  "nodeDictionary graphAB ''a'' = Some 0 \<and> degree graphAB ''a'' = 1
   \<and> degree (graphAB\<lparr>edges := edges graphAB @ [\<lparr>source = 0, target = 0\<rparr>]\<rparr>) ''a'' = 2"
proof -
  have h: "nodeDictionary graphAB ''a'' = Some 0"
    by (simp add: graphAB_def graphA_def store_defs)
  have e: "edges graphAB = [\<lparr>source = 0, target = Suc 0\<rparr>]"
    by (simp add: graphAB_def graphA_def store_defs)
  show ?thesis
    using h degree_counts_edges_once [OF h] by (simp add: e)
qed

text \<open>
  The claim C3 as the specification words it counts the source match and the target
  match separately, which gives an edge from a node to itself the count two. On the
  store with the single node \<^verbatim>\<open>a\<close> and the single edge from \<^verbatim>\<open>a\<close> to \<^verbatim>\<open>a\<close> the
  code returns one.
\<close>

theorem degree_self_loop_counterexample:
  "nodeDictionary graphLoop ''a'' = Some 0
   \<and> edges graphLoop = [\<lparr>source = 0, target = 0\<rparr>]
   \<and> degree graphLoop ''a'' = 1
   \<and> degree graphLoop ''a'' \<noteq> 2"
  by (simp add: graphLoop_def graphA_def store_defs degree_def containsNode_def)

text \<open>
  C10. For an id that is not in the store the dictionary lookup gives \<^verbatim>\<open>undefined\<close>,
  which is identical to no edge endpoint: \<^verbatim>\<open>degree\<close> returns 0. It has no \<^verbatim>\<open>throw\<close>
  and calls nothing that throws.
\<close>

theorem degree_absent_id_zero:
  assumes "nodeDictionary g nodeId = None"
  shows "degree g nodeId = 0"
  using assms by (simp add: degree_def degreeLoop_count containsNode_def)

theorem degree_absent_id_zero_witness:
  "nodeDictionary graphAB ''zz'' = None \<and> edges graphAB \<noteq> [] \<and> degree graphAB ''zz'' = 0"
proof -
  have h: "nodeDictionary graphAB ''zz'' = None"
    by (simp add: graphAB_def graphA_def store_defs)
  have e: "edges graphAB \<noteq> []"
    by (simp add: graphAB_def graphA_def store_defs)
  show ?thesis
    using h e degree_absent_id_zero [OF h] by simp
qed

section \<open>Properties of the searches\<close>

text \<open>The last step of a walk goes to an entry of \<open>nextLevelNodes\<close>; a set that
  holds the start and the neighbours of its members holds every node a walk reaches.
  \<open>enqueueUncovered\<close> appends to the queue and to \<^verbatim>\<open>covered\<close> the neighbours not
  yet covered.\<close>

lemma nextLevelNodes_iff:
  "v \<in> set (nextLevelNodes es p) \<longleftrightarrow>
     (\<exists>e \<in> set es. (source e = p \<and> target e = v) \<or> (target e = p \<and> source e = v))"
  by (auto simp: nextLevelNodes_def)

lemma walk_Suc_iff:
  "walk es (Suc n) s v \<longleftrightarrow> (\<exists>p. walk es n s p \<and> v \<in> set (nextLevelNodes es p))"
  unfolding nextLevelNodes_iff by (simp only: walk.simps) blast

lemma walk_closed:
  assumes "\<And>u. u \<in> S \<Longrightarrow> set (nextLevelNodes es u) \<subseteq> S" and "s \<in> S"
  shows "walk es n s v \<Longrightarrow> v \<in> S"
proof (induction n arbitrary: v)
  case 0
  then show ?case using assms(2) by simp
next
  case (Suc n)
  then obtain p where "walk es n s p" "v \<in> set (nextLevelNodes es p)"
    unfolding walk_Suc_iff by blast
  with Suc.IH assms(1) show ?case by blast
qed

lemma enqueueUncovered_char:
  "enqueueUncovered ns d q c = (q', c') \<Longrightarrow>
     \<exists>W. q' = q @ map (\<lambda>w. (w, d + 1)) W \<and> c' = c @ W \<and> set W = set ns - set c"
proof (induction ns arbitrary: q c)
  case Nil
  then show ?case by simp
next
  case (Cons n ns)
  show ?case
  proof (cases "n \<in> set c")
    case True
    with Cons.prems have "enqueueUncovered ns d q c = (q', c')" by simp
    from Cons.IH [OF this] True show ?thesis by auto
  next
    case False
    with Cons.prems have "enqueueUncovered ns d (q @ [(n, d + 1)]) (c @ [n]) = (q', c')"
      by simp
    from Cons.IH [OF this] obtain W where
      W: "q' = (q @ [(n, d + 1)]) @ map (\<lambda>w. (w, d + 1)) W" "c' = (c @ [n]) @ W"
         "set W = set ns - set (c @ [n])"
      by blast
    have "q' = q @ map (\<lambda>w. (w, d + 1)) (n # W)" "c' = c @ (n # W)"
      using W by simp_all
    moreover have "set (n # W) = set (n # ns) - set c"
      using W(3) False by auto
    ultimately show ?thesis by blast
  qed
qed

text \<open>The invariant \<open>bfs_inv\<close> holds when \<^verbatim>\<open>shortestPath\<close> starts the search, and
  every call of \<^verbatim>\<open>breadthFirstSearch\<close> that does not return hands it on to the next.
  With it, a depth returned is the distance of the destination, and an empty queue
  means that no walk reaches the destination.\<close>

lemma sorted_map_const: "sorted (map (\<lambda>w. (k::nat)) W)"
  by (induction W) auto

lemma inert_mono: "inert es e c v \<Longrightarrow> inert es e (c @ W) v"
  by (auto simp: inert_def)

lemma bfs_inv_init: "bfs_inv es s e [(s, 0)] []"
  by (simp add: bfs_inv_def minWalk_def)

lemma bfs_inv_step:
  assumes inv: "bfs_inv es s e ((u, du) # rest) c"
    and ne: "u \<noteq> e"
    and enq: "enqueueUncovered (nextLevelNodes es u) du rest c = (q', c')"
  shows "bfs_inv es s e q' c'"
proof -
  from enqueueUncovered_char [OF enq] obtain W where
    q': "q' = rest @ map (\<lambda>w. (w, Suc du)) W" and c': "c' = c @ W"
    and W: "set W = set (nextLevelNodes es u) - set c"
    by auto
  have I1a: "sorted (map snd rest)" and I1lo: "\<forall>x \<in> set rest. du \<le> snd x"
    using inv by (auto simp: bfs_inv_def)
  have I1hi: "\<forall>x \<in> set rest. snd x \<le> Suc du"
    using inv by (auto simp: bfs_inv_def)
  have I2: "(rest = [] \<and> u = s \<and> du = 0 \<and> c = []) \<or> fst ` set ((u, du) # rest) \<subseteq> set c"
    using inv by (auto simp: bfs_inv_def)
  have I3u: "minWalk es du s u \<or> inert es e c u"
    using inv by (auto simp: bfs_inv_def)
  have I3: "\<forall>x \<in> set rest. minWalk es (snd x) s (fst x) \<or> inert es e c (fst x)"
    using inv by (auto simp: bfs_inv_def)
  have I5: "\<And>v m. m \<le> du \<Longrightarrow> walk es m s v \<Longrightarrow> v \<in> set c \<union> {s}"
    using inv unfolding bfs_inv_def by (metis list.sel(1) list.distinct(1) snd_conv)
  have I6: "\<And>x. x \<in> set c \<union> {s} \<Longrightarrow> x \<noteq> u \<Longrightarrow> x \<notin> fst ` set rest \<Longrightarrow> inert es e c x"
    using inv unfolding bfs_inv_def by force
  have inert_u: "inert es e c' u"
    using ne W c' by (auto simp: inert_def)
  \<comment> \<open>the start node, when it is pushed again, is inert\<close>
  have start_inert: "inert es e c' s" if "s \<in> set W"
  proof (cases "u = s")
    case True
    then show ?thesis using inert_u by simp
  next
    case False
    have "s \<notin> set c" using that W by simp
    with I2 False have "s \<notin> fst ` set rest" by auto
    have "s \<noteq> u" using False by simp
    from I6 [OF _ this \<open>s \<notin> fst ` set rest\<close>] have "inert es e c s"
      by simp
    then show ?thesis unfolding c' by (rule inert_mono)
  qed
  have new_ok: "minWalk es (Suc du) s w \<or> inert es e c' w" if w: "w \<in> set W" for w
  proof (cases "w = s")
    case True
    with start_inert w show ?thesis by simp
  next
    case False
    from w W have adj: "w \<in> set (nextLevelNodes es u)" and nc: "w \<notin> set c" by auto
    from I3u show ?thesis
    proof
      assume "inert es e c u"
      with adj nc show ?thesis by (auto simp: inert_def)
    next
      assume mw: "minWalk es du s u"
      then have "walk es (Suc du) s w"
        unfolding walk_Suc_iff minWalk_def using adj by blast
      moreover have "\<not> walk es m s w" if "m < Suc du" for m
      proof
        assume "walk es m s w"
        with I5 [of m w] that have "w \<in> set c \<union> {s}" by simp
        with nc False show False by simp
      qed
      ultimately show ?thesis by (simp add: minWalk_def)
    qed
  qed
  have P1: "sorted (map snd q')"
    unfolding q' using I1a I1hi by (auto simp: sorted_append comp_def sorted_map_const)
  have hd_lo: "du \<le> snd (hd q')" if "q' \<noteq> []"
  proof (cases rest)
    case Nil
    with that q' show ?thesis by (cases W) auto
  next
    case (Cons a rest')
    with I1lo q' show ?thesis by auto
  qed
  have P2: "\<forall>x \<in> set q'. snd x \<le> Suc (snd (hd q'))"
  proof
    fix x assume x: "x \<in> set q'"
    then have "q' \<noteq> []" by auto
    from hd_lo [OF this] have "Suc du \<le> Suc (snd (hd q'))" by simp
    moreover have "snd x \<le> Suc du"
      using x I1hi unfolding q' by auto
    ultimately show "snd x \<le> Suc (snd (hd q'))" by simp
  qed
  have P3: "fst ` set q' \<subseteq> set c'"
    using I2 unfolding q' c' by auto
  have P4: "\<forall>x \<in> set q'. minWalk es (snd x) s (fst x) \<or> inert es e c' (fst x)"
  proof
    fix x assume "x \<in> set q'"
    then consider "x \<in> set rest" | w where "w \<in> set W" "x = (w, Suc du)"
      unfolding q' by auto
    then show "minWalk es (snd x) s (fst x) \<or> inert es e c' (fst x)"
    proof cases
      case 1
      with I3 have "minWalk es (snd x) s (fst x) \<or> inert es e c (fst x)" by blast
      then show ?thesis unfolding c' by (auto intro: inert_mono)
    next
      case 2
      with new_ok show ?thesis by simp
    qed
  qed
  have expanded: "inert es e c' p" if "p \<in> set c \<union> {s}" "p \<notin> fst ` set rest" for p
  proof (cases "p = u")
    case True
    with inert_u show ?thesis by simp
  next
    case False
    from I6 [OF that(1) False that(2)] show ?thesis unfolding c' by (rule inert_mono)
  qed
  have P5: "\<forall>v m. q' \<noteq> [] \<and> m \<le> snd (hd q') \<and> walk es m s v \<longrightarrow> v \<in> set c' \<union> {s}"
  proof (intro allI impI, elim conjE)
    fix v m assume ne': "q' \<noteq> []" and m: "m \<le> snd (hd q')" and wk: "walk es m s v"
    have hi: "snd (hd q') \<le> Suc du"
      using ne' I1hi unfolding q' by (cases rest; cases W) auto
    show "v \<in> set c' \<union> {s}"
    proof (cases "m \<le> du")
      case True
      from I5 [OF True wk] show ?thesis unfolding c' by auto
    next
      case False
      with m hi have m': "m = Suc du" and hd': "snd (hd q') = Suc du" by simp_all
      from wk obtain p where p: "walk es du s p" "v \<in> set (nextLevelNodes es p)"
        unfolding m' walk_Suc_iff by blast
      from I5 [OF le_refl p(1)] have pc: "p \<in> set c \<union> {s}" .
      have "inert es e c' p"
      proof (cases "p \<in> fst ` set rest")
        case False
        from expanded [OF pc False] show ?thesis .
      next
        case True
        then obtain d where pd: "(p, d) \<in> set rest" by auto
        have "Suc du \<le> d"
        proof -
          from pd have "rest \<noteq> []" by auto
          then have "hd q' = hd rest" unfolding q' by simp
          with hd' have "snd (hd rest) = Suc du" by simp
          moreover have "snd (hd rest) \<le> d"
            using I1a pd by (cases rest) auto
          ultimately show ?thesis by simp
        qed
        then have "du < d" by simp
        with p(1) have "\<not> minWalk es d s p" unfolding minWalk_def by blast
        with I3 pd have "inert es e c p" by force
        then show ?thesis unfolding c' by (rule inert_mono)
      qed
      with p(2) show ?thesis by (auto simp: inert_def)
    qed
  qed
  have P6: "\<forall>x \<in> set c' \<union> {s}. x \<notin> fst ` set q' \<longrightarrow> inert es e c' x"
  proof (intro ballI impI)
    fix x assume x: "x \<in> set c' \<union> {s}" and nq: "x \<notin> fst ` set q'"
    from nq have "x \<notin> set W" and nr: "x \<notin> fst ` set rest"
      unfolding q' by (auto simp: image_Un image_image)
    with x have "x \<in> set c \<union> {s}" unfolding c' by auto
    from expanded [OF this nr] show "inert es e c' x" .
  qed
  from P1 P2 P3 P4 P5 P6 show ?thesis
    unfolding bfs_inv_def by blast
qed

lemma bfs_result:
  assumes "bfs_inv es s e q c"
  shows "(\<forall>d. breadthFirstSearch es q e c = Inr d \<longrightarrow> minWalk es d s e)
       \<and> (\<forall>err. breadthFirstSearch es q e c = Inl err \<longrightarrow>
              err = PathNotFoundError \<and> (\<forall>n. \<not> walk es n s e))"
  using assms
proof (induction es q e c rule: breadthFirstSearch.induct)
  case (1 es endNode covered)
  have cl: "\<And>u. u \<in> set covered \<union> {s} \<Longrightarrow> inert es endNode covered u"
    using 1 by (auto simp: bfs_inv_def)
  have "v \<in> set covered \<union> {s}" if "walk es n s v" for n v
  proof (rule walk_closed [OF _ _ that])
    show "s \<in> set covered \<union> {s}" by simp
    fix u assume "u \<in> set covered \<union> {s}"
    from cl [OF this] show "set (nextLevelNodes es u) \<subseteq> set covered \<union> {s}"
      by (auto simp: inert_def)
  qed
  with cl have "\<not> walk es n s endNode" for n
    by (auto simp: inert_def)
  then show ?case by simp
next
  case (2 es currNode depth queue endNode covered)
  show ?case
  proof (cases "currNode = endNode")
    case True
    have "minWalk es depth s currNode \<or> inert es endNode covered currNode"
      using "2.prems" by (auto simp: bfs_inv_def)
    with True have "minWalk es depth s endNode" by (auto simp: inert_def)
    with True show ?thesis by simp
  next
    case False
    obtain q' c' where enq:
      "enqueueUncovered (nextLevelNodes es currNode) depth queue covered = (q', c')"
      by (cases "enqueueUncovered (nextLevelNodes es currNode) depth queue covered")
    from bfs_inv_step [OF "2.prems" False enq] have "bfs_inv es s endNode q' c'" .
    from "2.IH" [OF False enq [symmetric] this] show ?thesis
      using False enq by simp
  qed
qed


lemma minWalk_unique: "minWalk es d s e \<Longrightarrow> minWalk es d' s e \<Longrightarrow> d = d'"
  unfolding minWalk_def by (meson linorder_neqE_nat)

text \<open>
  The search that \<^verbatim>\<open>shortestPath\<close> starts runs on the store's edges with the
  endpoints as values. From a node its walks are the walks of the store; a value that
  is not a node has no neighbour.
\<close>

lemma set_edgeValues:
  "set (edgeValues es) = (\<lambda>e. \<lparr>source = VNode (source e), target = VNode (target e)\<rparr>) ` set es"
  by (simp add: edgeValues_def)

lemma walk_edgeValues:
  "walk (edgeValues es) n (VNode u) x \<longleftrightarrow> (\<exists>v. x = VNode v \<and> walk es n u v)"
proof (induction n arbitrary: x)
  case 0
  show ?case by auto
next
  case (Suc n)
  show ?case
  proof
    assume "walk (edgeValues es) (Suc n) (VNode u) x"
    then obtain e where e: "e \<in> set es"
      and w: "(walk (edgeValues es) n (VNode u) (VNode (source e)) \<and> VNode (target e) = x)
            \<or> (walk (edgeValues es) n (VNode u) (VNode (target e)) \<and> VNode (source e) = x)"
      by (simp only: walk.simps set_edgeValues) auto
    from w show "\<exists>v. x = VNode v \<and> walk es (Suc n) u v"
    proof
      assume "walk (edgeValues es) n (VNode u) (VNode (source e)) \<and> VNode (target e) = x"
      then have "walk es n u (source e)" and "x = VNode (target e)"
        unfolding Suc.IH by auto
      with e have "walk es (Suc n) u (target e)" by (simp only: walk.simps) blast
      with \<open>x = VNode (target e)\<close> show ?thesis by blast
    next
      assume "walk (edgeValues es) n (VNode u) (VNode (target e)) \<and> VNode (source e) = x"
      then have "walk es n u (target e)" and "x = VNode (source e)"
        unfolding Suc.IH by auto
      with e have "walk es (Suc n) u (source e)" by (simp only: walk.simps) blast
      with \<open>x = VNode (source e)\<close> show ?thesis by blast
    qed
  next
    assume "\<exists>v. x = VNode v \<and> walk es (Suc n) u v"
    then obtain v where x: "x = VNode v" and "walk es (Suc n) u v" by blast
    then obtain e where e: "e \<in> set es"
      and w: "(walk es n u (source e) \<and> target e = v) \<or> (walk es n u (target e) \<and> source e = v)"
      by (simp only: walk.simps) blast
    define e' where "e' = \<lparr>source = VNode (source e), target = VNode (target e)\<rparr>"
    have e': "e' \<in> set (edgeValues es)" "source e' = VNode (source e)"
      "target e' = VNode (target e)"
      using e by (simp_all add: set_edgeValues e'_def)
    from w have "(walk (edgeValues es) n (VNode u) (source e') \<and> target e' = x)
               \<or> (walk (edgeValues es) n (VNode u) (target e') \<and> source e' = x)"
      unfolding e'(2,3) Suc.IH x by auto
    with e'(1) show "walk (edgeValues es) (Suc n) (VNode u) x"
      by (simp only: walk.simps) blast
  qed
qed

lemma minWalk_edgeValues:
  "minWalk (edgeValues es) d (VNode s) (VNode e) \<longleftrightarrow> minWalk es d s e"
  unfolding minWalk_def walk_edgeValues by simp

lemma nextLevelNodes_not_node:
  "(\<And>r. v \<noteq> VNode r) \<Longrightarrow> nextLevelNodes (edgeValues es) v = []"
  by (auto simp: nextLevelNodes_def edgeValues_def filter_empty_conv)

lemma breadthFirstSearch_not_node:
  assumes "\<And>r. v \<noteq> VNode r"
  shows "breadthFirstSearch (edgeValues es) [(v, 0)] w [] =
           (if v = w then Inr 0 else Inl PathNotFoundError)"
  by (simp add: nextLevelNodes_not_node [OF assms])

lemma dictGet_stored: "nodeDictionary g k = Some r \<Longrightarrow> dictGet g k = VNode r"
  by (simp add: dictGet_def)

lemma dictGet_inherited:
  "nodeDictionary g k = None \<Longrightarrow> nodeDictionary g ''__proto__'' = None \<Longrightarrow>
     dictGet g k = inherited k"
  by (simp add: dictGet_def)

text \<open>
  For two ids that are in the store \<^verbatim>\<open>shortestPath\<close> returns \<open>d\<close> exactly when the
  end node is at distance \<open>d\<close> from the start node, edges taken in either direction;
  it throws the path-not-found error exactly when no walk reaches the end node, and
  never the node-not-found error; it returns 0 when start and end are the same node.
\<close>

lemma shortestPath_present_ids:
  assumes "nodeDictionary g startId = Some s" and "nodeDictionary g endId = Some e"
  shows "(\<forall>d. shortestPath g startId endId = Inr d \<longleftrightarrow>
               walk (edges g) d s e \<and> (\<forall>m<d. \<not> walk (edges g) m s e))
      \<and> (shortestPath g startId endId = Inl PathNotFoundError \<longleftrightarrow>
               (\<forall>n. \<not> walk (edges g) n s e))
      \<and> shortestPath g startId endId \<noteq> Inl NodeNotFoundError
      \<and> (s = e \<longrightarrow> shortestPath g startId endId = Inr 0)"
proof -
  define res where "res = breadthFirstSearch (edgeValues (edges g)) [(VNode s, 0)] (VNode e) []"
  have sp: "shortestPath g startId endId = res"
    using assms by (simp add: shortestPath_def res_def dictGet_stored)
  note R = bfs_result [OF bfs_inv_init, of "edgeValues (edges g)" "VNode s" "VNode e",
      folded res_def, unfolded minWalk_edgeValues walk_edgeValues]
  have R1: "res = Inr d \<Longrightarrow> minWalk (edges g) d s e" for d
    using R by blast
  have R2: "res = Inl err \<Longrightarrow> err = PathNotFoundError \<and> (\<forall>n. \<not> walk (edges g) n s e)" for err
    using R by blast
  have inr: "res = Inr d \<longleftrightarrow> minWalk (edges g) d s e" for d
  proof
    assume "res = Inr d"
    then show "minWalk (edges g) d s e" by (rule R1)
  next
    assume mw: "minWalk (edges g) d s e"
    show "res = Inr d"
    proof (cases res)
      case (Inl err)
      from R2 [OF this] have "\<not> walk (edges g) d s e" by blast
      with mw show ?thesis by (simp add: minWalk_def)
    next
      case (Inr d')
      from R1 [OF this] have "minWalk (edges g) d' s e" .
      from minWalk_unique [OF this mw] Inr show ?thesis by simp
    qed
  qed
  have P1: "\<forall>d. shortestPath g startId endId = Inr d \<longleftrightarrow>
               walk (edges g) d s e \<and> (\<forall>m<d. \<not> walk (edges g) m s e)"
    unfolding sp using inr by (simp add: minWalk_def)
  have P2: "shortestPath g startId endId = Inl PathNotFoundError \<longleftrightarrow>
               (\<forall>n. \<not> walk (edges g) n s e)"
  proof
    assume "shortestPath g startId endId = Inl PathNotFoundError"
    with sp have "res = Inl PathNotFoundError" by simp
    from R2 [OF this] show "\<forall>n. \<not> walk (edges g) n s e" by blast
  next
    assume nw: "\<forall>n. \<not> walk (edges g) n s e"
    show "shortestPath g startId endId = Inl PathNotFoundError"
    proof (cases res)
      case (Inl err)
      from R2 [OF this] Inl sp show ?thesis by simp
    next
      case (Inr d)
      then have "minWalk (edges g) d s e" using inr by blast
      with nw show ?thesis by (simp add: minWalk_def)
    qed
  qed
  have P3: "shortestPath g startId endId \<noteq> Inl NodeNotFoundError"
  proof (cases res)
    case (Inl err)
    from R2 [OF this] Inl sp show ?thesis by simp
  next
    case (Inr d)
    with sp show ?thesis by simp
  qed
  have P4: "s = e \<longrightarrow> shortestPath g startId endId = Inr 0"
    using inr [of 0] sp by (simp add: minWalk_def)
  from P1 P2 P3 P4 show ?thesis by blast
qed

text \<open>When one of the two lookups gives a falsy value \<^verbatim>\<open>shortestPath\<close> throws the
  node-not-found error. That is so for an id that was not stored and is not the name
  of an inherited member, in a store without a node of id \<^verbatim>\<open>__proto__\<close>.\<close>

lemma shortestPath_falsy:
  "\<not> truthy (dictGet g startId) \<or> \<not> truthy (dictGet g endId) \<Longrightarrow>
     shortestPath g startId endId = Inl NodeNotFoundError"
  by (auto simp: shortestPath_def Let_def)

lemma shortestPath_not_inherited:
  assumes "nodeDictionary g ''__proto__'' = None"
    and "(nodeDictionary g startId = None \<and> startId \<notin> set objectPrototypeKeys)
       \<or> (nodeDictionary g endId = None \<and> endId \<notin> set objectPrototypeKeys)"
  shows "shortestPath g startId endId = Inl NodeNotFoundError"
proof (rule shortestPath_falsy)
  from assms(2) show "\<not> truthy (dictGet g startId) \<or> \<not> truthy (dictGet g endId)"
  proof
    assume "nodeDictionary g startId = None \<and> startId \<notin> set objectPrototypeKeys"
    then have "dictGet g startId = VUndefined"
      using assms(1) by (simp add: dictGet_inherited inherited_def)
    then show ?thesis by simp
  next
    assume "nodeDictionary g endId = None \<and> endId \<notin> set objectPrototypeKeys"
    then have "dictGet g endId = VUndefined"
      using assms(1) by (simp add: dictGet_inherited inherited_def)
    then show ?thesis by simp
  qed
qed

text \<open>
  C5. An id that is not in the store but is the name of a member that every object
  inherits, such as \<^verbatim>\<open>toString\<close>, is not rejected: the lookup gives the inherited
  function, which is truthy, and the search starts. In a store without a node of id
  \<^verbatim>\<open>__proto__\<close>, with \<open>k\<close> such a name that was not stored and \<open>endId\<close> an id of the
  store, \<^verbatim>\<open>shortestPath\<close> throws the path-not-found error for \<open>k\<close> and \<open>endId\<close> in
  either order and returns 0 for \<open>k\<close> and \<open>k\<close>; in no case does it throw the
  node-not-found error.
\<close>

theorem shortestPath_inherited_key:
  assumes "k \<in> set objectPrototypeKeys"
    and "nodeDictionary g k = None"
    and "nodeDictionary g ''__proto__'' = None"
    and "nodeDictionary g endId = Some e"
  shows "shortestPath g k endId = Inl PathNotFoundError
       \<and> shortestPath g endId k = Inl PathNotFoundError
       \<and> shortestPath g k k = Inr 0"
proof -
  have k: "dictGet g k = VObject k"
    using assms(1-3) by (simp add: dictGet_inherited inherited_def)
  have e: "dictGet g endId = VNode e"
    using assms(4) by (rule dictGet_stored)
  have nn: "VObject k \<noteq> VNode r" for r by simp
  have "shortestPath g k endId = Inl PathNotFoundError"
    unfolding shortestPath_def k e Let_def
    by (simp only: breadthFirstSearch_not_node [OF nn]) simp
  moreover have "shortestPath g k k = Inr 0"
    unfolding shortestPath_def k Let_def
    by (simp only: breadthFirstSearch_not_node [OF nn]) simp
  moreover have "shortestPath g endId k = Inl PathNotFoundError"
  proof -
    define res where
      "res = breadthFirstSearch (edgeValues (edges g)) [(VNode e, 0)] (VObject k) []"
    have sp: "shortestPath g endId k = res"
      by (simp add: shortestPath_def k e res_def)
    note R = bfs_result [OF bfs_inv_init, of "edgeValues (edges g)" "VNode e" "VObject k",
        folded res_def, unfolded minWalk_def walk_edgeValues]
    show ?thesis
    proof (cases res)
      case (Inl err)
      with R have "err = PathNotFoundError" by blast
      with Inl sp show ?thesis by simp
    next
      case (Inr d)
      with R have "\<exists>v. VObject k = VNode v \<and> walk (edges g) d e v" by blast
      then show ?thesis by simp
    qed
  qed
  ultimately show ?thesis by blast
qed

lemma graphABC_facts:
  "nodeDictionary graphABC ''A'' = Some 0"
  "nodeDictionary graphABC ''C'' = Some 2"
  "nodeDictionary graphABC ''zz'' = None"
  "nodeDictionary graphABC ''toString'' = None"
  "nodeDictionary graphABC ''__proto__'' = None"
  "nodeIds graphABC = [''A'', ''B'', ''C'']"
  "edges graphABC = [\<lparr>source = 0, target = 1\<rparr>, \<lparr>source = 1, target = 2\<rparr>]"
  by (simp_all add: graphABC_def store_defs)

theorem shortestPath_inherited_key_witness:
  "''toString'' \<in> set objectPrototypeKeys
   \<and> ''toString'' \<notin> set (nodeIds graphABC)
   \<and> nodeDictionary graphABC ''toString'' = None
   \<and> nodeDictionary graphABC ''__proto__'' = None
   \<and> nodeDictionary graphABC ''A'' = Some 0
   \<and> shortestPath graphABC ''toString'' ''A'' = Inl PathNotFoundError
   \<and> shortestPath graphABC ''A'' ''toString'' = Inl PathNotFoundError
   \<and> shortestPath graphABC ''toString'' ''toString'' = Inr 0"
  using shortestPath_inherited_key [of "''toString''" graphABC "''A''" 0]
  by (simp add: graphABC_facts objectPrototypeKeys_def)

text \<open>The same by running the code: on the path \<^verbatim>\<open>A\<close>, \<^verbatim>\<open>B\<close>, \<^verbatim>\<open>C\<close> the search from
  \<^verbatim>\<open>A\<close> to \<^verbatim>\<open>C\<close> returns 2 (the property of the specification's test); an id that
  was not stored and names no inherited member is rejected, and \<^verbatim>\<open>toString\<close> is
  not.\<close>

lemma dictGet_graphABC:
  "dictGet graphABC ''A'' = VNode 0"
  "dictGet graphABC ''C'' = VNode 2"
  "dictGet graphABC ''zz'' = VUndefined"
  "dictGet graphABC ''toString'' = VObject ''toString''"
  by (simp_all add: dictGet_def inherited_def objectPrototypeKeys_def graphABC_facts)

lemma shortestPath_graphABC_run: "shortestPath graphABC ''A'' ''C'' = Inr 2"
  by (simp add: shortestPath_def dictGet_graphABC graphABC_facts edgeValues_def
      nextLevelNodes_def)

lemma shortestPath_graphABC_absent_run:
  "shortestPath graphABC ''zz'' ''A'' = Inl NodeNotFoundError"
  by (simp add: shortestPath_def dictGet_graphABC)

lemma shortestPath_graphABC_toString_run:
  "shortestPath graphABC ''toString'' ''A'' = Inl PathNotFoundError"
  by (simp add: shortestPath_def dictGet_graphABC graphABC_facts edgeValues_def
      nextLevelNodes_def)

text \<open>
  In a store with a node of id \<^verbatim>\<open>__proto__\<close> the names of the node's fields are
  looked up in that node: \<^verbatim>\<open>shortestPath('id', 'id')\<close> returns 0 although no node has
  the id \<^verbatim>\<open>id\<close>.
\<close>

lemma shortestPath_graphProto_run:
  "''id'' \<notin> set (nodeIds graphProto) \<and> dictGet graphProto ''id'' = VString ''__proto__''
   \<and> shortestPath graphProto ''id'' ''id'' = Inr 0"
  by (simp add: shortestPath_def dictGet_def fieldOf_def graphProto_def store_defs
      GraphNode_new_def)

section \<open>Properties of the component search\<close>

lemma graphA_facts: "nodes graphA = [0]" "edges graphA = []"
  by (simp_all add: graphA_def store_defs)

lemma graph132_facts:
  "nodes graph132 = [0, 1, 2, 3, 4, 5]"
  "edges graph132 = [\<lparr>source = 1, target = 2\<rparr>, \<lparr>source = 2, target = 3\<rparr>, \<lparr>source = 4, target = 5\<rparr>]"
  by (simp_all add: graph132_def store_defs)

text \<open>
  What a search of \<^verbatim>\<open>findLargestComponent\<close> returns. Started from \<open>v\<close> with an empty
  \<^verbatim>\<open>covered\<close>, \<^verbatim>\<open>connectedComponentMapBF\<close> covers exactly the nodes that a walk of at
  least one edge reaches from \<open>v\<close>. The start node is among them exactly when it has
  an edge; for a node without an edge the result is the empty array.
\<close>

lemma cc_inv_init: "cc_inv es v [(v, 0)] []"
  by (simp add: cc_inv_def)

lemma cc_inv_step:
  assumes inv: "cc_inv es v ((u, d) # rest) c"
    and enq: "enqueueUncovered (nextLevelNodes es u) d rest c = (q', c')"
  shows "cc_inv es v q' c'"
proof -
  from enqueueUncovered_char [OF enq] obtain W where
    q': "q' = rest @ map (\<lambda>w. (w, d + 1)) W" and c': "c' = c @ W"
    and W: "set W = set (nextLevelNodes es u) - set c"
    by auto
  have reach: "\<exists>n. walk es (Suc n) v w" if "w \<in> set c" for w
    using inv that by (auto simp: cc_inv_def)
  have u: "u \<in> set c \<union> {v}"
    using inv by (auto simp: cc_inv_def)
  have rest: "fst ` set rest \<subseteq> set c \<union> {v}"
    using inv by (auto simp: cc_inv_def)
  have closed: "set (nextLevelNodes es x) \<subseteq> set c"
    if "x \<in> set c \<union> {v}" "x \<noteq> u" "x \<notin> fst ` set rest" for x
    using inv that unfolding cc_inv_def by force
  have P1: "\<forall>w \<in> set c'. \<exists>n. walk es (Suc n) v w"
  proof
    fix w assume "w \<in> set c'"
    then consider "w \<in> set c" | "w \<in> set (nextLevelNodes es u)"
      unfolding c' using W by auto
    then show "\<exists>n. walk es (Suc n) v w"
    proof cases
      case 1
      then show ?thesis by (rule reach)
    next
      case 2
      show ?thesis
      proof (cases "u = v")
        case True
        with 2 have "walk es (Suc 0) v w"
          unfolding walk_Suc_iff by auto
        then show ?thesis by blast
      next
        case False
        with u have "u \<in> set c" by simp
        from reach [OF this] obtain n where "walk es (Suc n) v u" by blast
        with 2 have "walk es (Suc (Suc n)) v w"
          unfolding walk_Suc_iff [of es "Suc n"] by blast
        then show ?thesis by blast
      qed
    qed
  qed
  have P2: "fst ` set q' \<subseteq> set c' \<union> {v}"
    using rest unfolding q' c' by auto
  have P3: "\<forall>x \<in> set c' \<union> {v}. x \<notin> fst ` set q' \<longrightarrow> set (nextLevelNodes es x) \<subseteq> set c'"
  proof (intro ballI impI)
    fix x assume x: "x \<in> set c' \<union> {v}" and nq: "x \<notin> fst ` set q'"
    from nq have nW: "x \<notin> set W" and nr: "x \<notin> fst ` set rest"
      unfolding q' by (auto simp: image_Un image_image)
    with x have xc: "x \<in> set c \<union> {v}" unfolding c' by auto
    show "set (nextLevelNodes es x) \<subseteq> set c'"
    proof (cases "x = u")
      case True
      then show ?thesis unfolding c' using W by auto
    next
      case False
      from closed [OF xc False nr] show ?thesis unfolding c' by auto
    qed
  qed
  from P1 P2 P3 show ?thesis unfolding cc_inv_def by blast
qed

lemma cc_result:
  assumes "cc_inv es v q c"
  shows "set (connectedComponentMapBF es q c) = {w. \<exists>n. walk es (Suc n) v w}"
  using assms
proof (induction es q c rule: connectedComponentMapBF.induct)
  case (1 es covered)
  have closed: "\<And>u. u \<in> set covered \<union> {v} \<Longrightarrow> set (nextLevelNodes es u) \<subseteq> set covered"
    using 1 by (auto simp: cc_inv_def)
  have "w \<in> set covered" if "walk es (Suc n) v w" for n w
    using that
  proof (induction n arbitrary: w)
    case 0
    then have "w \<in> set (nextLevelNodes es v)"
      unfolding walk_Suc_iff by simp
    with closed [of v] show ?case by auto
  next
    case (Suc n)
    from Suc.prems obtain p where "walk es (Suc n) v p" "w \<in> set (nextLevelNodes es p)"
      unfolding walk_Suc_iff [of es "Suc n"] by blast
    with Suc.IH closed [of p] show ?case by auto
  qed
  moreover have "\<exists>n. walk es (Suc n) v w" if "w \<in> set covered" for w
    using 1 that by (auto simp: cc_inv_def)
  ultimately show ?case by auto
next
  case (2 es currNode depth queue covered)
  obtain q' c' where enq:
    "enqueueUncovered (nextLevelNodes es currNode) depth queue covered = (q', c')"
    by (cases "enqueueUncovered (nextLevelNodes es currNode) depth queue covered")
  from cc_inv_step [OF "2.prems" enq] have "cc_inv es v q' c'" .
  from "2.IH" [OF enq [symmetric] this] show ?case
    using enq by simp
qed

lemma connectedComponent_reached:
  "set (connectedComponentMapBF es [(v, 0)] []) = {w. \<exists>n. walk es (Suc n) v w}"
  by (rule cc_result [OF cc_inv_init])

lemma connectedComponent_isolated:
  assumes "v \<notin> endpoints es"
  shows "connectedComponentMapBF es [(v, 0)] [] = []"
proof -
  have "nextLevelNodes es v = []"
    using assms by (auto simp: nextLevelNodes_def endpoints_def filter_empty_conv)
  then show ?thesis by simp
qed

lemma connectedComponent_contains_start:
  "v \<in> set (connectedComponentMapBF es [(v, 0)] []) \<longleftrightarrow> v \<in> endpoints es"
proof
  assume m: "v \<in> set (connectedComponentMapBF es [(v, 0)] [])"
  show "v \<in> endpoints es"
  proof (rule ccontr)
    assume "v \<notin> endpoints es"
    from connectedComponent_isolated [OF this] have eq: "connectedComponentMapBF es [(v, 0)] [] = []" .
    from m have "v \<in> set []" unfolding eq .
    then show False by simp
  qed
next
  assume "v \<in> endpoints es"
  then obtain e where e: "e \<in> set es" "source e = v \<or> target e = v"
    by (auto simp: endpoints_def)
  then have "walk es (Suc (Suc 0)) v v"
    by (simp only: walk.simps) blast
  then show "v \<in> set (connectedComponentMapBF es [(v, 0)] [])"
    unfolding connectedComponent_reached by blast
qed

text \<open>
  Walks can be joined and reversed, so two nodes of which one reaches the other have
  the same component. For a node with an edge the search returns its component, each
  node once.
\<close>

lemma walk_append: "walk es n u v \<Longrightarrow> walk es m v w \<Longrightarrow> walk es (n + m) u w"
proof (induction m arbitrary: w)
  case 0
  then show ?case by simp
next
  case (Suc m)
  from Suc.prems(2) obtain p where "walk es m v p" "w \<in> set (nextLevelNodes es p)"
    unfolding walk_Suc_iff by blast
  with Suc.IH [OF Suc.prems(1)] have "walk es (Suc (n + m)) u w"
    unfolding walk_Suc_iff by blast
  then show ?case by simp
qed

lemma nextLevelNodes_sym: "w \<in> set (nextLevelNodes es p) \<Longrightarrow> p \<in> set (nextLevelNodes es w)"
  unfolding nextLevelNodes_iff by blast

lemma walk_sym: "walk es n u v \<Longrightarrow> walk es n v u"
proof (induction n arbitrary: v)
  case 0
  then show ?case by simp
next
  case (Suc n)
  from Suc.prems obtain p where p: "walk es n u p" "v \<in> set (nextLevelNodes es p)"
    unfolding walk_Suc_iff by blast
  from nextLevelNodes_sym [OF p(2)] have "walk es (Suc 0) v p"
    unfolding walk_Suc_iff by simp
  from walk_append [OF this Suc.IH [OF p(1)]] show ?case by simp
qed

lemma reach_self: "v \<in> reach es v"
proof -
  have "walk es 0 v v" by simp
  then show ?thesis unfolding reach_def by blast
qed

lemma reach_eq:
  assumes "w \<in> reach es v"
  shows "reach es w = reach es v"
proof -
  from assms obtain n where n: "walk es n v w" by (auto simp: reach_def)
  have "x \<in> reach es v" if "x \<in> reach es w" for x
  proof -
    from that obtain m where "walk es m w x" by (auto simp: reach_def)
    from walk_append [OF n this] show ?thesis unfolding reach_def by blast
  qed
  moreover have "x \<in> reach es w" if "x \<in> reach es v" for x
  proof -
    from that obtain m where "walk es m v x" by (auto simp: reach_def)
    from walk_append [OF walk_sym [OF n] this] show ?thesis unfolding reach_def by blast
  qed
  ultimately show ?thesis by blast
qed

lemma walk_endpoint: "walk es (Suc n) v w \<Longrightarrow> w \<in> endpoints es"
  unfolding walk_Suc_iff nextLevelNodes_iff endpoints_def by force


lemma reach_subset: "reach es v \<subseteq> insert v (endpoints es)"
proof
  fix w assume "w \<in> reach es v"
  then obtain n where n: "walk es n v w" by (auto simp: reach_def)
  show "w \<in> insert v (endpoints es)"
  proof (cases n)
    case 0
    with n show ?thesis by simp
  next
    case (Suc m)
    with n have "walk es (Suc m) v w" by simp
    from walk_endpoint [OF this] show ?thesis by simp
  qed
qed

lemma reach_finite: "finite (reach es v)"
proof -
  have "finite (insert v (endpoints es))" by (simp add: endpoints_def)
  from finite_subset [OF reach_subset this] show ?thesis .
qed

lemma reach_card_pos: "0 < card (reach es v)"
  using reach_finite [of es v] reach_self [of v es] by (metis card_gt_0_iff empty_iff)

lemma reach_isolated: "v \<notin> endpoints es \<Longrightarrow> reach es v = {v}"
proof -
  assume iso: "v \<notin> endpoints es"
  have "w = v" if "w \<in> reach es v" for w
  proof -
    from that obtain n where n: "walk es n v w" by (auto simp: reach_def)
    from walk_sym [OF n] have wv: "walk es n w v" .
    show ?thesis
    proof (cases n)
      case 0
      with n show ?thesis by simp
    next
      case (Suc m)
      with wv have "walk es (Suc m) w v" by simp
      from walk_endpoint [OF this] iso show ?thesis by simp
    qed
  qed
  with reach_self [of v es] show ?thesis by blast
qed

lemma enqueueUncovered_distinct:
  "distinct c \<Longrightarrow> enqueueUncovered ns d q c = (q', c') \<Longrightarrow> distinct c'"
proof (induction ns arbitrary: q c)
  case Nil
  then show ?case by simp
next
  case (Cons n ns)
  show ?case
  proof (cases "n \<in> set c")
    case True
    with Cons.prems(2) have "enqueueUncovered ns d q c = (q', c')" by simp
    from Cons.IH [OF Cons.prems(1) this] show ?thesis .
  next
    case False
    with Cons.prems(2) have e: "enqueueUncovered ns d (q @ [(n, d + 1)]) (c @ [n]) = (q', c')"
      by simp
    from Cons.prems(1) False have "distinct (c @ [n])" by simp
    from Cons.IH [OF this e] show ?thesis .
  qed
qed

lemma connectedComponentMapBF_distinct:
  "distinct c \<Longrightarrow> distinct (connectedComponentMapBF es q c)"
proof (induction es q c rule: connectedComponentMapBF.induct)
  case (1 es covered)
  then show ?case by simp
next
  case (2 es currNode depth queue covered)
  obtain q' c' where enq:
    "enqueueUncovered (nextLevelNodes es currNode) depth queue covered = (q', c')"
    by (cases "enqueueUncovered (nextLevelNodes es currNode) depth queue covered")
  from enqueueUncovered_distinct [OF "2.prems" enq] have "distinct c'" .
  from "2.IH" [OF enq [symmetric] this] show ?case using enq by simp
qed

lemma component_of_connected_node:
  assumes "v \<in> endpoints es"
  shows "set (connectedComponentMapBF es [(v, 0)] []) = reach es v"
proof -
  have "w \<in> set (connectedComponentMapBF es [(v, 0)] [])" if "w \<in> reach es v" for w
  proof -
    from that obtain n where n: "walk es n v w" by (auto simp: reach_def)
    show ?thesis
    proof (cases n)
      case 0
      with n have "w = v" by simp
      with assms connectedComponent_contains_start [of v es] show ?thesis by blast
    next
      case (Suc m)
      with n show ?thesis unfolding connectedComponent_reached by blast
    qed
  qed
  moreover have "w \<in> reach es v" if "w \<in> set (connectedComponentMapBF es [(v, 0)] [])" for w
    using that unfolding connectedComponent_reached reach_def by blast
  ultimately show ?thesis by blast
qed

lemma component_length:
  assumes "v \<in> endpoints es"
  shows "length (connectedComponentMapBF es [(v, 0)] []) = card (reach es v)"
proof -
  have "distinct (connectedComponentMapBF es [(v, 0)] [])"
    by (rule connectedComponentMapBF_distinct) simp
  from distinct_card [OF this] component_of_connected_node [OF assms] show ?thesis by simp
qed

text \<open>The two loops of \<^verbatim>\<open>findLargestComponent\<close> compute what \<open>pickLoop\<close>
  computes, and every visit of a node keeps \<open>pick_inv\<close>.\<close>

lemma largestLoop_append: "largestLoop (xs @ ys) b = largestLoop ys (largestLoop xs b)"
  by (induction xs arbitrary: b) simp_all

lemma largest_of_components:
  "largestLoop (componentsLoop es ns rcl comps) b = pickLoop es ns rcl (largestLoop comps b)"
  by (induction ns arbitrary: rcl comps) (simp_all add: Let_def largestLoop_append)

lemma takeWhile_snoc_subset:
  "set (takeWhile Q (P @ [u])) \<subseteq> set (takeWhile Q P) \<union> {u}"
  by (induction P) auto

lemma pick_invI:
  assumes "set rcl = \<Union> (reach es ` (set P \<inter> endpoints es))"
    and "distinct b"
    and "b = [] \<or> (\<exists>v \<in> set P. set b = reach es v)"
    and "\<And>x. x \<in> set P \<Longrightarrow> x \<in> endpoints es \<Longrightarrow> card (reach es x) \<le> length b"
    and "\<And>x. x \<in> set (takeWhile (\<lambda>x. x \<notin> set b) P) \<Longrightarrow> x \<in> endpoints es
           \<Longrightarrow> card (reach es x) < length b"
  shows "pick_inv es P rcl b"
  using assms unfolding pick_inv_def by blast

lemma pick_inv_step:
  assumes inv: "pick_inv es P rcl b"
  shows "pick_inv es (P @ [u])
           (if u \<notin> set rcl then rcl @ connectedComponentMapBF es [(u, 0)] [] else rcl)
           (if u \<notin> set rcl \<and> length (connectedComponentMapBF es [(u, 0)] []) > length b
            then connectedComponentMapBF es [(u, 0)] [] else b)"
proof -
  let ?cc = "connectedComponentMapBF es [(u, 0)] []"
  from inv have rcl: "set rcl = \<Union> (reach es ` (set P \<inter> endpoints es))"
    and db: "distinct b"
    and bv: "b = [] \<or> (\<exists>v \<in> set P. set b = reach es v)"
    and bound: "\<And>x. x \<in> set P \<Longrightarrow> x \<in> endpoints es \<Longrightarrow> card (reach es x) \<le> length b"
    and first: "\<And>x. x \<in> set (takeWhile (\<lambda>x. x \<notin> set b) P) \<Longrightarrow> x \<in> endpoints es
                  \<Longrightarrow> card (reach es x) < length b"
    unfolding pick_inv_def by blast+
  have bv': "b = [] \<or> (\<exists>v \<in> set (P @ [u]). set b = reach es v)"
    using bv by auto
  \<comment> \<open>when the best component is not empty, one of its nodes has been visited\<close>
  have stops: "takeWhile (\<lambda>x. x \<notin> set b) (P @ [u]) = takeWhile (\<lambda>x. x \<notin> set b) P"
    if "b \<noteq> []"
  proof -
    from bv that obtain v where v: "v \<in> set P" "set b = reach es v" by blast
    with reach_self [of v es] have "v \<in> set b" by simp
    then have "\<not> v \<notin> set b" by simp
    from takeWhile_append1 [OF v(1), of "\<lambda>x. x \<notin> set b", OF this] show ?thesis .
  qed
  show ?thesis
  proof (cases "u \<in> set rcl")
    case True
    then obtain p where p: "p \<in> set P" "p \<in> endpoints es" "u \<in> reach es p"
      using rcl by auto
    from reach_eq [OF p(3)] have ru: "reach es u = reach es p" .
    from bound [OF p(1,2)] reach_card_pos [of es p] have "b \<noteq> []" by auto
    note st = stops [OF this]
    have "pick_inv es (P @ [u]) rcl b"
    proof (rule pick_invI)
      show "set rcl = \<Union> (reach es ` (set (P @ [u]) \<inter> endpoints es))"
        using rcl ru p by auto
      show "distinct b" by (rule db)
      show "b = [] \<or> (\<exists>v \<in> set (P @ [u]). set b = reach es v)" by (rule bv')
      show "card (reach es x) \<le> length b" if "x \<in> set (P @ [u])" "x \<in> endpoints es" for x
      proof (cases "x = u")
        case True
        with ru bound [OF p(1,2)] show ?thesis by simp
      next
        case False
        with that bound show ?thesis by simp
      qed
      show "card (reach es x) < length b"
        if "x \<in> set (takeWhile (\<lambda>x. x \<notin> set b) (P @ [u]))" "x \<in> endpoints es" for x
        using that first unfolding st by blast
    qed
    with True show ?thesis by simp
  next
    case False
    show ?thesis
    proof (cases "u \<in> endpoints es")
      case iso: False
      from connectedComponent_isolated [OF iso] have cc: "?cc = []" .
      have "pick_inv es (P @ [u]) rcl b"
      proof (rule pick_invI)
        show "set rcl = \<Union> (reach es ` (set (P @ [u]) \<inter> endpoints es))"
          using rcl iso by auto
        show "distinct b" by (rule db)
        show "b = [] \<or> (\<exists>v \<in> set (P @ [u]). set b = reach es v)" by (rule bv')
        show "card (reach es x) \<le> length b" if "x \<in> set (P @ [u])" "x \<in> endpoints es" for x
          using that bound iso by auto
        show "card (reach es x) < length b"
          if "x \<in> set (takeWhile (\<lambda>x. x \<notin> set b) (P @ [u]))" "x \<in> endpoints es" for x
        proof -
          from that(1) takeWhile_snoc_subset [of "\<lambda>x. x \<notin> set b" P u]
          have "x \<in> set (takeWhile (\<lambda>x. x \<notin> set b) P) \<or> x = u" by auto
          with that(2) iso first show ?thesis by auto
        qed
      qed
      with False show ?thesis unfolding cc by simp
    next
      case conn: True
      have scc: "set ?cc = reach es u" by (rule component_of_connected_node [OF conn])
      have lcc: "length ?cc = card (reach es u)" by (rule component_length [OF conn])
      have dcc: "distinct ?cc" by (rule connectedComponentMapBF_distinct) simp
      have fresh: "x \<notin> reach es u" if "x \<in> set P" for x
      proof
        assume xr: "x \<in> reach es u"
        have "x \<in> endpoints es"
          using xr reach_subset [of es u] conn by auto
        with that rcl have "reach es x \<subseteq> set rcl" by auto
        moreover from reach_eq [OF xr] reach_self [of u es] have "u \<in> reach es x" by simp
        ultimately show False using False by auto
      qed
      have rcl': "set (rcl @ ?cc) = \<Union> (reach es ` (set (P @ [u]) \<inter> endpoints es))"
        using rcl scc conn by auto
      show ?thesis
      proof (cases "length ?cc > length b")
        case True
        have tw: "takeWhile (\<lambda>x. x \<notin> set ?cc) (P @ [u]) = P"
          using fresh reach_self [of u es] unfolding scc by (simp add: takeWhile_append2)
        have "pick_inv es (P @ [u]) (rcl @ ?cc) ?cc"
        proof (rule pick_invI)
          show "set (rcl @ ?cc) = \<Union> (reach es ` (set (P @ [u]) \<inter> endpoints es))"
            by (rule rcl')
          show "distinct ?cc" by (rule dcc)
          show "?cc = [] \<or> (\<exists>v \<in> set (P @ [u]). set ?cc = reach es v)"
            using scc by auto
          show "card (reach es x) \<le> length ?cc"
            if "x \<in> set (P @ [u])" "x \<in> endpoints es" for x
          proof (cases "x = u")
            case True
            with lcc show ?thesis by simp
          next
            case False
            with that have "x \<in> set P" by simp
            from bound [OF this that(2)] True show ?thesis by simp
          qed
          show "card (reach es x) < length ?cc"
            if "x \<in> set (takeWhile (\<lambda>x. x \<notin> set ?cc) (P @ [u]))" "x \<in> endpoints es" for x
          proof -
            from that(1) have "x \<in> set P" unfolding tw .
            from bound [OF this that(2)] True show ?thesis by simp
          qed
        qed
        with False True show ?thesis by simp
      next
        case le: False
        from le lcc reach_card_pos [of es u] have "b \<noteq> []" by auto
        note st = stops [OF this]
        have "pick_inv es (P @ [u]) (rcl @ ?cc) b"
        proof (rule pick_invI)
          show "set (rcl @ ?cc) = \<Union> (reach es ` (set (P @ [u]) \<inter> endpoints es))"
            by (rule rcl')
          show "distinct b" by (rule db)
          show "b = [] \<or> (\<exists>v \<in> set (P @ [u]). set b = reach es v)" by (rule bv')
          show "card (reach es x) \<le> length b"
            if "x \<in> set (P @ [u])" "x \<in> endpoints es" for x
          proof (cases "x = u")
            case True
            with le lcc show ?thesis by simp
          next
            case False
            with that bound show ?thesis by simp
          qed
          show "card (reach es x) < length b"
            if "x \<in> set (takeWhile (\<lambda>x. x \<notin> set b) (P @ [u]))" "x \<in> endpoints es" for x
            using that first unfolding st by blast
        qed
        with False le show ?thesis by simp
      qed
    qed
  qed
qed

lemma pick_inv_loop:
  "pick_inv es P rcl b \<Longrightarrow> \<exists>rcl'. pick_inv es (P @ ns) rcl' (pickLoop es ns rcl b)"
proof (induction ns arbitrary: P rcl b)
  case Nil
  then show ?case by auto
next
  case (Cons u ns)
  from Cons.IH [OF pick_inv_step [OF Cons.prems, of u]] show ?case
    by (auto simp: Let_def split: if_splits)
qed

lemma pick_inv_init: "pick_inv es [] [] []"
  by (simp add: pick_inv_def)

text \<open>
  So the method is right as soon as some component has two nodes: it returns, each
  node once, the component of a node \<open>v\<close> of the store that has the most members, and
  every node that comes before the first node of that component in insertion order has
  a strictly smaller component.
\<close>

lemma findLargestComponent_with_edges:
  assumes "\<exists>u \<in> set (nodes g). 2 \<le> card (reach (edges g) u)"
  shows "\<exists>v \<in> set (nodes g).
           set (findLargestComponent g) = reach (edges g) v
         \<and> distinct (findLargestComponent g)
         \<and> (\<forall>u \<in> set (nodes g). card (reach (edges g) u) \<le> card (reach (edges g) v))
         \<and> (\<forall>u \<in> set (takeWhile (\<lambda>x. x \<notin> reach (edges g) v) (nodes g)).
               card (reach (edges g) u) < card (reach (edges g) v))"
proof -
  let ?es = "edges g" and ?R = "findLargestComponent g"
  have R: "?R = pickLoop ?es (nodes g) [] []"
    by (simp add: findLargestComponent_def largest_of_components)
  from pick_inv_loop [OF pick_inv_init, of ?es "nodes g"] obtain rcl where
    inv: "pick_inv ?es (nodes g) rcl ?R"
    unfolding R by auto
  from inv have dR: "distinct ?R"
    and Rv: "?R = [] \<or> (\<exists>v \<in> set (nodes g). set ?R = reach ?es v)"
    and bound: "\<And>x. x \<in> set (nodes g) \<Longrightarrow> x \<in> endpoints ?es \<Longrightarrow> card (reach ?es x) \<le> length ?R"
    and first: "\<And>x. x \<in> set (takeWhile (\<lambda>x. x \<notin> set ?R) (nodes g)) \<Longrightarrow> x \<in> endpoints ?es
                  \<Longrightarrow> card (reach ?es x) < length ?R"
    by (auto simp: pick_inv_def)
  from assms obtain u where u: "u \<in> set (nodes g)" "2 \<le> card (reach ?es u)" by blast
  have "u \<in> endpoints ?es"
  proof (rule ccontr)
    assume "u \<notin> endpoints ?es"
    from reach_isolated [OF this] u(2) show False by simp
  qed
  from bound [OF u(1) this] u(2) have big: "2 \<le> length ?R" by simp
  then have "?R \<noteq> []" by auto
  with Rv obtain v where v: "v \<in> set (nodes g)" "set ?R = reach ?es v" by blast
  from distinct_card [OF dR] v(2) have len: "length ?R = card (reach ?es v)" by simp
  have "card (reach ?es x) \<le> card (reach ?es v)" if "x \<in> set (nodes g)" for x
  proof (cases "x \<in> endpoints ?es")
    case True
    from bound [OF that True] len show ?thesis by simp
  next
    case False
    from reach_isolated [OF False] big len show ?thesis by simp
  qed
  moreover have "card (reach ?es x) < card (reach ?es v)"
    if "x \<in> set (takeWhile (\<lambda>x. x \<notin> reach ?es v) (nodes g))" for x
  proof (cases "x \<in> endpoints ?es")
    case True
    from first [OF _ True] that len v(2) show ?thesis by simp
  next
    case False
    from reach_isolated [OF False] big len show ?thesis by simp
  qed
  ultimately show ?thesis using v dR by blast
qed


text \<open>
  C4 on a failing input. \<^verbatim>\<open>findLargestComponent\<close> starts every search with an empty
  \<^verbatim>\<open>covered\<close>, although the comment on \<^verbatim>\<open>connectedComponentMapBF\<close> asks for the
  origin node in it. A node is then covered only when the search comes back to it
  through an edge. On the store with the single node \<^verbatim>\<open>a\<close> and no edge the component
  found for \<^verbatim>\<open>a\<close> is empty and the method returns the empty array, not the component
  of \<^verbatim>\<open>a\<close>.
\<close>

theorem findLargestComponent_isolated_node:
  "nodes graphA = [0] \<and> edges graphA = []
   \<and> connectedComponentMapBF (edges graphA) [(0, 0)] [] = []
   \<and> findLargestComponent graphA = []"
  by (simp add: findLargestComponent_def graphA_facts nextLevelNodes_def)

text \<open>The property of the specification's test: with components of sizes 1, 3 and 2
  the method returns the nodes \<^verbatim>\<open>b\<close>, \<^verbatim>\<open>c\<close>, \<^verbatim>\<open>a\<close> of the component of size 3.\<close>

lemma findLargestComponent_graph132_run: "findLargestComponent graph132 = [2, 3, 1]"
  by (simp add: findLargestComponent_def graph132_facts nextLevelNodes_def)

section \<open>Properties of the network generator\<close>

lemma decimal_small: "n < 10 \<Longrightarrow> decimal n = [digitChar n]"
  by (subst decimal.simps) simp

lemma decimal_0_1: "decimal 0 = ''0''" "decimal 1 = ''1''" "decimal (Suc 0) = ''1''"
  by (simp_all add: decimal_small digitChar_def)

lemma rnd_zero: "rnd_tl (\<lambda>_. 0) = (\<lambda>_. 0)" "rnd_hd (\<lambda>_. 0) = Fin 0"
  by (simp_all add: rnd_tl_def rnd_hd_def)

lemma addNodesLoop_done: "\<not> i < n \<Longrightarrow> addNodesLoop pre n i g rnd = (Inr (), g, rnd)"
  by (subst addNodesLoop.simps) simp

lemma addNodesLoop_step: "i < n \<Longrightarrow> addNodesLoop pre n i g rnd =
  (case addNode g (onlyId (pre @ decimal i)) rnd of
           (Inl err, g', rnd') \<Rightarrow> (Inl err, g', rnd')
         | (Inr newNode, g', rnd') \<Rightarrow> addNodesLoop pre n (i + 1) g' rnd')"
  by (subst addNodesLoop.simps) simp

lemma edgesInnerLoop_done: "\<not> j < n \<Longrightarrow> edgesInnerLoop pre n p i j g rnd = (g, rnd)"
  by (subst edgesInnerLoop.simps) simp

lemma edgesInnerLoop_step: "j < n \<Longrightarrow> edgesInnerLoop pre n p i j g rnd =
        (if js_le (rnd_hd rnd) p
         then edgesInnerLoop pre n p i (j + 1)
                (fst (addEdge g (pre @ decimal i) (pre @ decimal j))) (rnd_tl rnd)
         else edgesInnerLoop pre n p i (j + 1) g (rnd_tl rnd))"
  by (subst edgesInnerLoop.simps) simp

lemma edgesOuterLoop_done: "\<not> i < n \<Longrightarrow> edgesOuterLoop pre n p i g rnd = (g, rnd)"
  by (subst edgesOuterLoop.simps) simp

lemma edgesOuterLoop_step: "i < n \<Longrightarrow> edgesOuterLoop pre n p i g rnd =
        (case edgesInnerLoop pre n p i (i + 1) g rnd of
           (g', rnd') \<Rightarrow> edgesOuterLoop pre n p (i + 1) g' rnd')"
  by (subst edgesOuterLoop.simps) simp

text \<open>Distinct indices give distinct ids.\<close>

lemma digitChar_inj: "a < 10 \<Longrightarrow> b < 10 \<Longrightarrow> digitChar a = digitChar b \<Longrightarrow> a = b"
proof -
  assume a: "a < 10" and b: "b < 10" and eq: "digitChar a = digitChar b"
  have d: "distinct ''0123456789''" by simp
  have l: "length ''0123456789'' = 10" by simp
  from eq have "''0123456789'' ! a = ''0123456789'' ! b" by (simp add: digitChar_def)
  with d a b l show "a = b" by (metis nth_eq_iff_index_eq)
qed

lemma decimal_large: "\<not> n < 10 \<Longrightarrow> decimal n = decimal (n div 10) @ [digitChar (n mod 10)]"
  by (subst decimal.simps) simp

lemma decimal_nonempty: "decimal n \<noteq> []"
  by (subst decimal.simps) simp

lemma decimal_inj: "decimal n = decimal m \<Longrightarrow> n = m"
proof (induction n arbitrary: m rule: decimal.induct)
  case (1 n)
  show ?case
  proof (cases "n < 10")
    case True
    show ?thesis
    proof (cases "m < 10")
      case m: True
      from "1.prems" True m have "digitChar n = digitChar m"
        by (simp add: decimal_small)
      with True m show ?thesis by (rule digitChar_inj)
    next
      case False
      with "1.prems" True have "[digitChar n] = decimal (m div 10) @ [digitChar (m mod 10)]"
        by (simp add: decimal_small decimal_large)
      then have "decimal (m div 10) = []" by simp
      with decimal_nonempty show ?thesis by blast
    qed
  next
    case False
    show ?thesis
    proof (cases "m < 10")
      case True
      with "1.prems" False have "decimal (n div 10) @ [digitChar (n mod 10)] = [digitChar m]"
        by (simp add: decimal_small decimal_large)
      then have "decimal (n div 10) = []" by simp
      with decimal_nonempty show ?thesis by blast
    next
      case m: False
      from "1.prems" False m have
        "decimal (n div 10) @ [digitChar (n mod 10)] = decimal (m div 10) @ [digitChar (m mod 10)]"
        by (simp add: decimal_large)
      then have p: "decimal (n div 10) = decimal (m div 10)"
        and q: "digitChar (n mod 10) = digitChar (m mod 10)" by simp_all
      from "1.IH" [OF False p] have "n div 10 = m div 10" .
      moreover from q have "n mod 10 = m mod 10"
        by (intro digitChar_inj) simp_all
      ultimately show ?thesis by (metis div_mult_mod_eq)
    qed
  qed
qed


text \<open>
  The two halves of C8 in general. After the first loop has run on a store without
  ids, the store is \<open>named\<close>. With \<open>p = 1\<close> and every draw in \<open>[0, 1)\<close> the nested
  loops add the edges \<open>pairEdges\<close>, one for every pair \<open>i < j\<close>, which are
  \<open>n (n - 1) / 2\<close> edges. With \<open>p = 0\<close> they add no edge provided that no draw is 0.
\<close>

lemma allDraws_tl: "allDraws Q rnd \<Longrightarrow> allDraws Q (rnd_tl rnd)"
  by (simp add: allDraws_def rnd_tl_def)

lemma allDraws_hd: "allDraws Q rnd \<Longrightarrow> \<exists>v. rnd_hd rnd = Fin v \<and> Q v"
  by (simp add: allDraws_def rnd_hd_def)

lemma addNode_onlyId_fresh:
  assumes "i \<notin> set (nodeIds g)"
  shows "\<exists>g'. addNode g (onlyId i) rnd = (Inr (nextRef g), g', rnd_tl (rnd_tl rnd))
    \<and> nodeIds g' = nodeIds g @ [i] \<and> nodes g' = nodes g @ [nextRef g]
    \<and> nodeDictionary g' = (nodeDictionary g)(i \<mapsto> nextRef g)
    \<and> nextRef g' = Suc (nextRef g) \<and> edges g' = edges g"
  using assms by (simp add: addNode_def onlyId_def coordOrRandom_def Let_def)

lemma ids_inj: "ids pre a = ids pre b \<Longrightarrow> a = b"
  by (simp add: ids_def decimal_inj)

lemma addNodesLoop_fresh:
  assumes "named pre r0 i g" and "i \<le> n" and "allDraws Q rnd"
  shows "\<exists>g' rnd'. addNodesLoop pre n i g rnd = (Inr (), g', rnd')
     \<and> named pre r0 n g' \<and> edges g' = edges g \<and> allDraws Q rnd'"
  using assms
proof (induction "n - i" arbitrary: i g rnd)
  case 0
  then have "i = n" by simp
  with "0.prems" show ?case by (simp add: addNodesLoop_done)
next
  case (Suc d)
  then have True: "i < n" by simp
  show ?case
  proof -
    from Suc.prems(1) have fresh: "ids pre i \<notin> set (nodeIds g)"
      by (auto simp: named_def dest: ids_inj)
    from addNode_onlyId_fresh [OF fresh, of rnd] obtain g1 where
      a: "addNode g (onlyId (ids pre i)) rnd = (Inr (nextRef g), g1, rnd_tl (rnd_tl rnd))"
      and g1: "nodeIds g1 = nodeIds g @ [ids pre i]"
        "nodeDictionary g1 = (nodeDictionary g)(ids pre i \<mapsto> nextRef g)"
        "nextRef g1 = Suc (nextRef g)" "edges g1 = edges g"
      by blast
    have n1: "named pre r0 (i + 1) g1"
      unfolding named_def
    proof (intro conjI allI impI)
      show "set (nodeIds g1) = ids pre ` {..<i + 1}"
        using Suc.prems(1) g1(1) by (auto simp: named_def less_Suc_eq)
      show "nextRef g1 = r0 + (i + 1)"
        using Suc.prems(1) g1(3) by (simp add: named_def)
      fix k assume "k < i + 1"
      then consider "k = i" | "k < i" by linarith
      then show "nodeDictionary g1 (ids pre k) = Some (r0 + k)"
      proof cases
        case 1
        with Suc.prems(1) g1(2) show ?thesis by (simp add: named_def)
      next
        case 2
        then have "ids pre k \<noteq> ids pre i" by (auto dest: ids_inj)
        with 2 Suc.prems(1) g1(2) show ?thesis by (simp add: named_def)
      qed
    qed
    have q: "allDraws Q (rnd_tl (rnd_tl rnd))"
      using Suc.prems(3) by (intro allDraws_tl)
    from True have le: "i + 1 \<le> n" by simp
    from Suc.hyps(2) have d: "d = n - (i + 1)" by simp
    from Suc.hyps(1) [OF d n1 le q]
    obtain g' rnd' where
      r: "addNodesLoop pre n (i + 1) g1 (rnd_tl (rnd_tl rnd)) = (Inr (), g', rnd')"
        "named pre r0 n g'" "edges g' = edges g1" "allDraws Q rnd'"
      by blast
    have "addNodesLoop pre n i g rnd = (Inr (), g', rnd')"
      using True a r(1) by (simp add: addNodesLoop_step ids_def)
    with r g1(4) show ?thesis by simp
  qed
qed


lemma named_edges [simp]: "named pre r0 m (g\<lparr>edges := es\<rparr>) = named pre r0 m g"
  by (simp add: named_def)

lemma addEdge_named:
  assumes "named pre r0 n g" and "i < n" and "j < n"
  shows "addEdge g (ids pre i) (ids pre j)
           = (g\<lparr>edges := edges g @ [\<lparr>source = r0 + i, target = r0 + j\<rparr>]\<rparr>, [])"
proof -
  from assms have "ids pre i \<in> set (nodeIds g)" "ids pre j \<in> set (nodeIds g)"
    "nodeDictionary g (ids pre i) = Some (r0 + i)" "nodeDictionary g (ids pre j) = Some (r0 + j)"
    by (auto simp: named_def)
  then show ?thesis by (simp add: addEdge_def)
qed

lemma pairEdges_step:
  "i < n \<Longrightarrow> pairEdges r0 n i =
     map (\<lambda>b. \<lparr>source = r0 + i, target = r0 + b\<rparr>) [Suc i..<n] @ pairEdges r0 n (Suc i)"
  by (simp add: pairEdges_def upt_conv_Cons)

lemma pairEdges_done: "\<not> i < n \<Longrightarrow> pairEdges r0 n i = []"
  by (simp add: pairEdges_def)

lemma pairEdges_length: "2 * length (pairEdges r0 n i) = (n - i) * (n - i - 1)"
proof (induction "n - i" arbitrary: i)
  case 0
  then show ?case by (simp add: pairEdges_done)
next
  case (Suc d)
  then have lt: "i < n" and d: "d = n - Suc i" by simp_all
  from Suc.hyps(1) [OF d] have "2 * length (pairEdges r0 n (Suc i)) = d * (d - 1)"
    using d by simp
  moreover have "length (pairEdges r0 n i) = d + length (pairEdges r0 n (Suc i))"
    using lt d by (simp add: pairEdges_step)
  moreover have "n - i = Suc d" "n - i - 1 = d"
    using Suc.hyps(2) by simp_all
  ultimately show ?case by (cases d) simp_all
qed

lemma edgesInnerLoop_p1:
  assumes "named pre r0 n g" and "i < n" and "allDraws (\<lambda>v. v \<le> 1) rnd"
  shows "fst (edgesInnerLoop pre n (Fin 1) i j g rnd)
           = g\<lparr>edges := edges g @ map (\<lambda>b. \<lparr>source = r0 + i, target = r0 + b\<rparr>) [j..<n]\<rparr>
       \<and> allDraws (\<lambda>v. v \<le> 1) (snd (edgesInnerLoop pre n (Fin 1) i j g rnd))"
  using assms
proof (induction "n - j" arbitrary: j g rnd)
  case 0
  then show ?case by (simp add: edgesInnerLoop_done)
next
  case (Suc d)
  then have lt: "j < n" and d: "d = n - (j + 1)" by simp_all
  from Suc.prems(3) have draw: "js_le (rnd_hd rnd) (Fin 1)"
    by (simp add: allDraws_def rnd_hd_def)
  let ?g1 = "g\<lparr>edges := edges g @ [\<lparr>source = r0 + i, target = r0 + j\<rparr>]\<rparr>"
  have step: "edgesInnerLoop pre n (Fin 1) i j g rnd
                = edgesInnerLoop pre n (Fin 1) i (j + 1) ?g1 (rnd_tl rnd)"
    using lt draw addEdge_named [OF Suc.prems(1,2) lt]
    by (simp add: edgesInnerLoop_step ids_def)
  have "named pre r0 n ?g1" using Suc.prems(1) by simp
  from Suc.hyps(1) [OF d this Suc.prems(2) allDraws_tl [OF Suc.prems(3)]]
  show ?case
    unfolding step using lt by (simp add: upt_conv_Cons)
qed

lemma edgesOuterLoop_p1:
  assumes "named pre r0 n g" and "allDraws (\<lambda>v. v \<le> 1) rnd"
  shows "fst (edgesOuterLoop pre n (Fin 1) i g rnd) = g\<lparr>edges := edges g @ pairEdges r0 n i\<rparr>"
  using assms
proof (induction "n - i" arbitrary: i g rnd)
  case 0
  then show ?case by (simp add: edgesOuterLoop_done pairEdges_done)
next
  case (Suc d)
  then have lt: "i < n" and d: "d = n - (i + 1)" by simp_all
  obtain g1 rnd1 where inner: "edgesInnerLoop pre n (Fin 1) i (i + 1) g rnd = (g1, rnd1)"
    by (cases "edgesInnerLoop pre n (Fin 1) i (i + 1) g rnd")
  from edgesInnerLoop_p1 [OF Suc.prems(1) lt Suc.prems(2), of "i + 1"] inner
  have g1: "g1 = g\<lparr>edges := edges g @ map (\<lambda>b. \<lparr>source = r0 + i, target = r0 + b\<rparr>) [Suc i..<n]\<rparr>"
    and r1: "allDraws (\<lambda>v. v \<le> 1) rnd1"
    by simp_all
  have n1: "named pre r0 n g1" using Suc.prems(1) g1 by simp
  have "edgesOuterLoop pre n (Fin 1) i g rnd = edgesOuterLoop pre n (Fin 1) (i + 1) g1 rnd1"
    using lt inner by (simp add: edgesOuterLoop_step)
  with Suc.hyps(1) [OF d n1 r1] show ?case
    using lt by (simp add: g1 pairEdges_step)
qed

lemma edgesInnerLoop_p0:
  assumes "allDraws (\<lambda>v. 0 < v) rnd"
  shows "fst (edgesInnerLoop pre n (Fin 0) i j g rnd) = g
       \<and> allDraws (\<lambda>v. 0 < v) (snd (edgesInnerLoop pre n (Fin 0) i j g rnd))"
  using assms
proof (induction "n - j" arbitrary: j rnd)
  case 0
  then show ?case by (simp add: edgesInnerLoop_done)
next
  case (Suc d)
  then have lt: "j < n" and d: "d = n - (j + 1)" by simp_all
  from Suc.prems have draw: "\<not> js_le (rnd_hd rnd) (Fin 0)"
    by (simp add: allDraws_def rnd_hd_def not_le)
  have step: "edgesInnerLoop pre n (Fin 0) i j g rnd
                = edgesInnerLoop pre n (Fin 0) i (j + 1) g (rnd_tl rnd)"
    using lt draw by (simp add: edgesInnerLoop_step)
  from Suc.hyps(1) [OF d allDraws_tl [OF Suc.prems]] show ?case
    unfolding step .
qed

lemma edgesOuterLoop_p0:
  assumes "allDraws (\<lambda>v. 0 < v) rnd"
  shows "fst (edgesOuterLoop pre n (Fin 0) i g rnd) = g"
  using assms
proof (induction "n - i" arbitrary: i rnd)
  case 0
  then show ?case by (simp add: edgesOuterLoop_done)
next
  case (Suc d)
  then have lt: "i < n" and d: "d = n - (i + 1)" by simp_all
  obtain g1 rnd1 where inner: "edgesInnerLoop pre n (Fin 0) i (i + 1) g rnd = (g1, rnd1)"
    by (cases "edgesInnerLoop pre n (Fin 0) i (i + 1) g rnd")
  from edgesInnerLoop_p0 [OF Suc.prems, of pre n i "i + 1" g] inner
  have g1: "g1 = g" and r1: "allDraws (\<lambda>v. 0 < v) rnd1" by simp_all
  have "edgesOuterLoop pre n (Fin 0) i g rnd = edgesOuterLoop pre n (Fin 0) (i + 1) g rnd1"
    using lt inner g1 by (simp add: edgesOuterLoop_step)
  with Suc.hyps(1) [OF d r1] show ?case by simp
qed

lemma named_empty: "nodeIds g = [] \<Longrightarrow> named pre (nextRef g) 0 g"
  by (simp add: named_def)

lemma generateRandomNetwork_p1_complete:
  assumes "nodeIds g = []" and "edges g = []" and "\<forall>k. 0 \<le> rnd k \<and> rnd k < 1"
  shows "fst (generateRandomNetwork g n (Fin 1) pre rnd) = Inr ()
    \<and> edges (fst (snd (generateRandomNetwork g n (Fin 1) pre rnd))) = pairEdges (nextRef g) n 0
    \<and> length (edges (fst (snd (generateRandomNetwork g n (Fin 1) pre rnd)))) = n * (n - 1) div 2"
proof -
  have q: "allDraws (\<lambda>v. v \<le> 1) rnd"
    using assms(3) by (simp add: allDraws_def less_imp_le)
  from addNodesLoop_fresh [OF named_empty [OF assms(1)] _ q, of n pre]
  obtain g' rnd' where a: "addNodesLoop pre n 0 g rnd = (Inr (), g', rnd')"
    and n: "named pre (nextRef g) n g'" and e: "edges g' = edges g"
    and q': "allDraws (\<lambda>v. v \<le> 1) rnd'"
    by auto
  obtain g2 rnd2 where o: "edgesOuterLoop pre n (Fin 1) 0 g' rnd' = (g2, rnd2)"
    by (cases "edgesOuterLoop pre n (Fin 1) 0 g' rnd'")
  from edgesOuterLoop_p1 [OF n q', of 0] o
  have g2: "edges g2 = pairEdges (nextRef g) n 0"
    using e assms(2) by simp
  have res: "generateRandomNetwork g n (Fin 1) pre rnd = (Inr (), g2, rnd2)"
    by (simp add: generateRandomNetwork_def a o)
  from pairEdges_length [of "nextRef g" n 0]
  have "length (pairEdges (nextRef g) n 0) = n * (n - 1) div 2" by simp
  with res g2 show ?thesis by simp
qed

lemma generateRandomNetwork_p0_positive_draws:
  assumes "nodeIds g = []" and "edges g = []" and "\<forall>k. 0 < rnd k \<and> rnd k < 1"
  shows "fst (generateRandomNetwork g n (Fin 0) pre rnd) = Inr ()
    \<and> edges (fst (snd (generateRandomNetwork g n (Fin 0) pre rnd))) = []"
proof -
  have q: "allDraws (\<lambda>v. 0 < v) rnd"
    using assms(3) by (simp add: allDraws_def)
  from addNodesLoop_fresh [OF named_empty [OF assms(1)] _ q, of n pre]
  obtain g' rnd' where a: "addNodesLoop pre n 0 g rnd = (Inr (), g', rnd')"
    and e: "edges g' = edges g" and q': "allDraws (\<lambda>v. 0 < v) rnd'"
    by auto
  obtain g2 rnd2 where o: "edgesOuterLoop pre n (Fin 0) 0 g' rnd' = (g2, rnd2)"
    by (cases "edgesOuterLoop pre n (Fin 0) 0 g' rnd'")
  from edgesOuterLoop_p0 [OF q', of pre n 0 g'] o have "g2 = g'" by simp
  with e assms(2) have "edges g2 = []" by simp
  moreover have "generateRandomNetwork g n (Fin 0) pre rnd = (Inr (), g2, rnd2)"
    by (simp add: generateRandomNetwork_def a o)
  ultimately show ?thesis by simp
qed

text \<open>
  C8 on a failing input. An edge is added when the value drawn is \<^verbatim>\<open><= p\<close>, and
  \<^verbatim>\<open>Math.random()\<close> can return 0. On the empty store, with \<open>n = 2\<close>, \<open>p = 0\<close> and
  a random source that returns 0 at every draw, the method adds the edge from
  \<^verbatim>\<open>n0\<close> to \<^verbatim>\<open>n1\<close>.
\<close>

theorem generateRandomNetwork_p0_adds_edge:
  "fst (generateRandomNetwork (Graph_new canvas500) 2 (Fin 0) ''n'' (\<lambda>_. 0)) = Inr ()
   \<and> edges (fst (snd (generateRandomNetwork (Graph_new canvas500) 2 (Fin 0) ''n'' (\<lambda>_. 0))))
       = [\<lparr>source = 0, target = 1\<rparr>]"
  by (simp add: generateRandomNetwork_def addNodesLoop_step addNodesLoop_done
      edgesOuterLoop_step edgesOuterLoop_done edgesInnerLoop_step edgesInnerLoop_done
      decimal_0_1 rnd_zero addNode_def addEdge_def Graph_new_def canvas500_def onlyId_def
      coordOrRandom_def GraphNode_new_def Let_def)

section \<open>Properties of the layout engine\<close>

lemma frLoop_passes: "passes (frLoop P i st) = passes st + (80 - i)"
proof (induction P i st rule: frLoop.induct)
  case (1 P i st)
  show ?case
  proof (cases "i < 80")
    case True
    then have "passes (frLoop P i st) = passes (frLoop P (i + 1) (frPass P i st))"
      by (subst frLoop.simps) simp
    also have "\<dots> = passes (frPass P i st) + (80 - (i + 1))"
      using 1 True by simp
    also have "\<dots> = passes st + (80 - i)"
      using True by (simp add: frPass_def)
    finally show ?thesis .
  next
    case False
    then show ?thesis by (subst frLoop.simps) simp
  qed
qed

text \<open>
  C1 as the code has it. The loop of \<^verbatim>\<open>fruchtermanReingold\<close> starts at \<open>i = 1\<close> and
  runs while \<open>i < 80\<close>: on every store and for all constants the solver performs
  exactly 79 passes and returns.
\<close>

theorem fruchtermanReingold_passes_79:
  "passes (frRun g attractionConstant repulsionConstant) = 79"
  by (simp add: frRun_def frLoop_passes)

text \<open>The claim C1 as the specification words it, 80 passes, fails on the store with
  the single node \<^verbatim>\<open>a\<close>.\<close>

theorem fruchtermanReingold_passes_counterexample:
  "passes (frRun graphA (Fin 1) (Fin 1)) \<noteq> 80"
  by (simp add: frRun_def frLoop_passes)

text \<open>
  A store with one node and no edge: the node's displacement is reset to zero and
  nothing is added to it, so the position update divides zero by the zero length of
  the displacement.
\<close>

lemma forces_single:
  assumes "p_nodes P = [r]" "p_edges P = []"
  shows "forces P objs = objs(r := (objs r)\<lparr>disp := \<lparr>vx = Fin 0, vy = Fin 0\<rparr>\<rparr>)"
  using assms by (simp add: forces_def attraction_def repulsion_def repulseOne_def)

lemma temp_zero_disp:
  "disp n = \<lparr>vx = Fin 0, vy = Fin 0\<rparr> \<Longrightarrow> tempX t n = NaN \<and> tempY t n = NaN"
  by (cases "n_x n"; cases "n_y n")
     (simp_all add: tempX_def tempY_def dist_vec_def js_pow2_def js_inf_def)

lemma frPass_single:
  assumes "p_nodes P = [r]" "p_edges P = []"
  shows "n_x (fr_objects (frPass P i st) r) = NaN \<and> n_y (fr_objects (frPass P i st) r) = NaN"
  using assms
  by (simp add: frPass_def forces_single updateOne_def Let_def temp_zero_disp js_max_def js_min_def)

lemma frLoop_single:
  assumes "p_nodes P = [r]" "p_edges P = []"
  shows "(i < 80 \<or> (n_x (fr_objects st r) = NaN \<and> n_y (fr_objects st r) = NaN)) \<Longrightarrow>
     n_x (fr_objects (frLoop P i st) r) = NaN \<and> n_y (fr_objects (frLoop P i st) r) = NaN"
  using assms
proof (induction P i st rule: frLoop.induct)
  case (1 P i st)
  show ?case
  proof (cases "i < 80")
    case True
    have "frLoop P i st = frLoop P (i + 1) (frPass P i st)"
      using True by (subst frLoop.simps) simp
    moreover have "n_x (fr_objects (frLoop P (i + 1) (frPass P i st)) r) = NaN
        \<and> n_y (fr_objects (frLoop P (i + 1) (frPass P i st)) r) = NaN"
      using "1.IH" [OF True] frPass_single [OF "1.prems"(2,3)] "1.prems"(2,3) by blast
    ultimately show ?thesis by simp
  next
    case False
    then have "frLoop P i st = st" by (subst frLoop.simps) simp
    with False "1.prems"(1) show ?thesis by simp
  qed
qed

text \<open>
  C2 on failing inputs. For every store with exactly one node and no edge, whatever
  the node's position, the constants and the size of the canvas,
  \<^verbatim>\<open>fruchtermanReingold\<close> leaves both coordinates of the node NaN.
\<close>

theorem fruchtermanReingold_single_node_NaN:
  assumes "nodes g = [r]" and "edges g = []"
  shows "n_x (objects (fruchtermanReingold g attractionConstant repulsionConstant) r) = NaN
       \<and> n_y (objects (fruchtermanReingold g attractionConstant repulsionConstant) r) = NaN"
proof -
  have "p_nodes (frInit g attractionConstant repulsionConstant) = [r]"
    and "p_edges (frInit g attractionConstant repulsionConstant) = []"
    using assms by (simp_all add: frInit_def Let_def)
  from frLoop_single [OF this, of 1] show ?thesis
    by (simp add: fruchtermanReingold_def frRun_def)
qed

theorem fruchtermanReingold_single_node_NaN_witness:
  "nodes graphA = [0] \<and> edges graphA = []
   \<and> n_x (objects graphA 0) = Fin 100 \<and> n_y (objects graphA 0) = Fin 100
   \<and> clientWidth (canvas graphA) = Fin 500 \<and> clientHeight (canvas graphA) = Fin 500
   \<and> n_x (objects (fruchtermanReingold graphA (Fin 1) (Fin 1)) 0) = NaN
   \<and> n_y (objects (fruchtermanReingold graphA (Fin 1) (Fin 1)) 0) = NaN"
proof -
  have h: "nodes graphA = [0]" "edges graphA = []"
    by (simp_all add: graphA_def store_defs)
  have "n_x (objects graphA 0) = Fin 100 \<and> n_y (objects graphA 0) = Fin 100
    \<and> clientWidth (canvas graphA) = Fin 500 \<and> clientHeight (canvas graphA) = Fin 500"
    by (simp add: graphA_def store_defs)
  with h fruchtermanReingold_single_node_NaN [OF h, of "Fin 1" "Fin 1"] show ?thesis
    by simp
qed

text \<open>The clamp at the end of a pass. A node that the update loop visits is left
  at a clamped position, and the loop leaves the other objects alone; when the array
  has no node twice, the position is the clamp of \<^verbatim>\<open>tempX\<close>, \<^verbatim>\<open>tempY\<close> as computed
  from the state after the force loops.\<close>

lemma fold_updateOneAnimate_clamped:
  "r \<in> set ns \<or> (\<exists>tx ty. n_x (objs r) = js_min (js_sub w (Fin 20)) (js_max (Fin 20) tx)
                         \<and> n_y (objs r) = js_min (js_sub h (Fin 20)) (js_max (Fin 20) ty)) \<Longrightarrow>
   \<exists>tx ty. n_x (fold (updateOneAnimate w h t) ns objs r) = js_min (js_sub w (Fin 20)) (js_max (Fin 20) tx)
         \<and> n_y (fold (updateOneAnimate w h t) ns objs r) = js_min (js_sub h (Fin 20)) (js_max (Fin 20) ty)"
proof (induction ns arbitrary: objs)
  case Nil
  then show ?case by simp
next
  case (Cons n ns)
  have "\<exists>tx ty. n_x (updateOneAnimate w h t n objs r) = js_min (js_sub w (Fin 20)) (js_max (Fin 20) tx)
         \<and> n_y (updateOneAnimate w h t n objs r) = js_min (js_sub h (Fin 20)) (js_max (Fin 20) ty)"
    if "r = n \<or> (\<exists>tx ty. n_x (objs r) = js_min (js_sub w (Fin 20)) (js_max (Fin 20) tx)
                         \<and> n_y (objs r) = js_min (js_sub h (Fin 20)) (js_max (Fin 20) ty))"
    using that by (cases "r = n") (auto simp: updateOneAnimate_def Let_def)
  with Cons.prems Cons.IH [of "updateOneAnimate w h t n objs"] show ?case
    by auto
qed

lemma fold_updateOne_clamped:
  "r \<in> set ns \<or> (\<exists>tx ty. n_x (objs r) = js_min (js_sub w (Fin 10)) (js_max (Fin 10) tx)
                         \<and> n_y (objs r) = js_min (js_sub h (Fin 10)) (js_max (Fin 20) ty)) \<Longrightarrow>
   \<exists>tx ty. n_x (fold (updateOne w h t) ns objs r) = js_min (js_sub w (Fin 10)) (js_max (Fin 10) tx)
         \<and> n_y (fold (updateOne w h t) ns objs r) = js_min (js_sub h (Fin 10)) (js_max (Fin 20) ty)"
proof (induction ns arbitrary: objs)
  case Nil
  then show ?case by simp
next
  case (Cons n ns)
  have "\<exists>tx ty. n_x (updateOne w h t n objs r) = js_min (js_sub w (Fin 10)) (js_max (Fin 10) tx)
         \<and> n_y (updateOne w h t n objs r) = js_min (js_sub h (Fin 10)) (js_max (Fin 20) ty)"
    if "r = n \<or> (\<exists>tx ty. n_x (objs r) = js_min (js_sub w (Fin 10)) (js_max (Fin 10) tx)
                         \<and> n_y (objs r) = js_min (js_sub h (Fin 10)) (js_max (Fin 20) ty))"
    using that by (cases "r = n") (auto simp: updateOne_def Let_def)
  with Cons.prems Cons.IH [of "updateOne w h t n objs"] show ?case
    by auto
qed

lemma clamp_in_box:
  assumes "lo \<le> hi"
  shows "js_min (Fin hi) (js_max (Fin lo) t) = NaN
       \<or> (\<exists>v. js_min (Fin hi) (js_max (Fin lo) t) = Fin v \<and> lo \<le> v \<and> v \<le> hi)"
  using assms by (cases t) (auto simp: js_min_def js_max_def)













text \<open>
  The clamp over a whole run. Both solvers run at least one pass (the animated one
  starts with \<^verbatim>\<open>playing\<close> set), every pass clamps every node of the store, and
  nothing else moves a node. So when a solver returns, after 79 passes or, for the
  animated one, after it was stopped, a coordinate of a node is NaN or lies between the
  clamp bounds, provided the canvas is at least as wide and high as the two margins.
\<close>

lemma frPass_clamped:
  "r \<in> set (p_nodes P) \<Longrightarrow> clampedStatic (p_width P) (p_height P) (fr_objects (frPass P i st) r)"
  unfolding clampedStatic_def
  using fold_updateOne_clamped [of r "p_nodes P"] by (simp add: frPass_def)

lemma frPassAnimate_clamped:
  "r \<in> set (p_nodes P) \<Longrightarrow> clampedAnimate (p_width P) (p_height P) (fr_objects (frPassAnimate P i st) r)"
  unfolding clampedAnimate_def
  using fold_updateOneAnimate_clamped [of r "p_nodes P"] by (simp add: frPassAnimate_def)

lemma frLoop_clamped:
  assumes "r \<in> set (p_nodes P)"
  shows "i < 80 \<or> clampedStatic (p_width P) (p_height P) (fr_objects st r) \<Longrightarrow>
     clampedStatic (p_width P) (p_height P) (fr_objects (frLoop P i st) r)"
  using assms
proof (induction P i st rule: frLoop.induct)
  case (1 P i st)
  show ?case
  proof (cases "i < 80")
    case True
    have "frLoop P i st = frLoop P (i + 1) (frPass P i st)"
      using True by (subst frLoop.simps) simp
    moreover have "clampedStatic (p_width P) (p_height P) (fr_objects (frLoop P (i + 1) (frPass P i st)) r)"
      using "1.IH" [OF True _ "1.prems"(2)] frPass_clamped [OF "1.prems"(2)] by blast
    ultimately show ?thesis by simp
  next
    case False
    then have "frLoop P i st = st" by (subst frLoop.simps) simp
    with False "1.prems"(1) show ?thesis by simp
  qed
qed

lemma frLoopAnimate_clamped:
  assumes "r \<in> set (p_nodes P)"
  shows "(i < 80 \<and> isPlaying) \<or> clampedAnimate (p_width P) (p_height P) (fr_objects st r) \<Longrightarrow>
     clampedAnimate (p_width P) (p_height P) (fr_objects (frLoopAnimate P stop i isPlaying st) r)"
  using assms
proof (induction P stop i isPlaying st rule: frLoopAnimate.induct)
  case (1 P stop i isPlaying st)
  show ?case
  proof (cases "i < 80 \<and> isPlaying")
    case True
    have "frLoopAnimate P stop i isPlaying st
            = frLoopAnimate P stop (i + 1) (\<not> stop i) (frPassAnimate P i st)"
      using True by (subst frLoopAnimate.simps) simp
    moreover have "clampedAnimate (p_width P) (p_height P)
        (fr_objects (frLoopAnimate P stop (i + 1) (\<not> stop i) (frPassAnimate P i st)) r)"
      using "1.IH" [OF _ _ _ "1.prems"(2)] True frPassAnimate_clamped [OF "1.prems"(2)] by blast
    ultimately show ?thesis by simp
  next
    case False
    then have "frLoopAnimate P stop i isPlaying st = st"
      by (subst frLoopAnimate.simps) auto
    with False "1.prems"(1) show ?thesis by auto
  qed
qed

lemma clampedStatic_box:
  assumes "clampedStatic (Fin w) (Fin h) n" and "20 \<le> w" and "30 \<le> h"
  shows "(n_x n = NaN \<or> (\<exists>v. n_x n = Fin v \<and> 10 \<le> v \<and> v \<le> w - 10))
       \<and> (n_y n = NaN \<or> (\<exists>v. n_y n = Fin v \<and> 20 \<le> v \<and> v \<le> h - 10))"
proof -
  from assms(1) obtain tx ty where
    "n_x n = js_min (Fin (w - 10)) (js_max (Fin 10) tx)"
    "n_y n = js_min (Fin (h - 10)) (js_max (Fin 20) ty)"
    by (auto simp: clampedStatic_def js_sub_def)
  with clamp_in_box [of 10 "w - 10" tx] clamp_in_box [of 20 "h - 10" ty] assms(2,3)
  show ?thesis by simp
qed

lemma clampedAnimate_box:
  assumes "clampedAnimate (Fin w) (Fin h) n" and "40 \<le> w" and "40 \<le> h"
  shows "(n_x n = NaN \<or> (\<exists>v. n_x n = Fin v \<and> 20 \<le> v \<and> v \<le> w - 20))
       \<and> (n_y n = NaN \<or> (\<exists>v. n_y n = Fin v \<and> 20 \<le> v \<and> v \<le> h - 20))"
proof -
  from assms(1) obtain tx ty where
    "n_x n = js_min (Fin (w - 20)) (js_max (Fin 20) tx)"
    "n_y n = js_min (Fin (h - 20)) (js_max (Fin 20) ty)"
    by (auto simp: clampedAnimate_def js_sub_def)
  with clamp_in_box [of 20 "w - 20" tx] clamp_in_box [of 20 "h - 20" ty] assms(2,3)
  show ?thesis by simp
qed

lemma fruchtermanReingold_in_box_or_NaN:
  assumes "r \<in> set (nodes g)"
    and "clientWidth (canvas g) = Fin w" and "clientHeight (canvas g) = Fin h"
    and "20 \<le> w" and "30 \<le> h"
  shows "(n_x (objects (fruchtermanReingold g a c) r) = NaN
          \<or> (\<exists>v. n_x (objects (fruchtermanReingold g a c) r) = Fin v \<and> 10 \<le> v \<and> v \<le> w - 10))
       \<and> (n_y (objects (fruchtermanReingold g a c) r) = NaN
          \<or> (\<exists>v. n_y (objects (fruchtermanReingold g a c) r) = Fin v \<and> 20 \<le> v \<and> v \<le> h - 10))"
proof -
  have P: "r \<in> set (p_nodes (frInit g a c))" "p_width (frInit g a c) = Fin w"
    "p_height (frInit g a c) = Fin h"
    using assms(1-3) by (simp_all add: frInit_def Let_def)
  from frLoop_clamped [OF P(1), of 1] have
    "clampedStatic (Fin w) (Fin h) (objects (fruchtermanReingold g a c) r)"
    by (simp add: fruchtermanReingold_def frRun_def P)
  from clampedStatic_box [OF this assms(4,5)] show ?thesis .
qed

lemma fruchtermanReingoldAnimate_in_box_or_NaN:
  assumes "r \<in> set (nodes g)"
    and "clientWidth (canvas g) = Fin w" and "clientHeight (canvas g) = Fin h"
    and "40 \<le> w" and "40 \<le> h"
  shows "(n_x (objects (fruchtermanReingoldAnimate g a c stop) r) = NaN
          \<or> (\<exists>v. n_x (objects (fruchtermanReingoldAnimate g a c stop) r) = Fin v \<and> 20 \<le> v \<and> v \<le> w - 20))
       \<and> (n_y (objects (fruchtermanReingoldAnimate g a c stop) r) = NaN
          \<or> (\<exists>v. n_y (objects (fruchtermanReingoldAnimate g a c stop) r) = Fin v \<and> 20 \<le> v \<and> v \<le> h - 20))"
proof -
  have P: "r \<in> set (p_nodes (frInit g a c))" "p_width (frInit g a c) = Fin w"
    "p_height (frInit g a c) = Fin h"
    using assms(1-3) by (simp_all add: frInit_def Let_def)
  from frLoopAnimate_clamped [OF P(1), of 1 True] have
    "clampedAnimate (Fin w) (Fin h) (objects (fruchtermanReingoldAnimate g a c stop) r)"
    by (simp add: fruchtermanReingoldAnimate_def P)
  from clampedAnimate_box [OF this assms(4,5)] show ?thesis .
qed


lemma clamp_cases:
  assumes "lo \<le> hi"
  shows "(a \<le> lo \<longrightarrow> js_min (Fin hi) (js_max (Fin lo) (Fin a)) = Fin lo)
       \<and> (hi \<le> a \<longrightarrow> js_min (Fin hi) (js_max (Fin lo) (Fin a)) = Fin hi)
       \<and> (lo \<le> a \<and> a \<le> hi \<longrightarrow> js_min (Fin hi) (js_max (Fin lo) (Fin a)) = Fin a)"
  using assms by (auto simp: js_min_def js_max_def)













text \<open>On a store with one node and no edge a pass of the animated solver, like one of
  the static solver, divides zero by zero and leaves both coordinates NaN.\<close>

lemma frPassAnimate_single:
  assumes "p_nodes P = [r]" "p_edges P = []"
  shows "n_x (fr_objects (frPassAnimate P i st) r) = NaN
       \<and> n_y (fr_objects (frPassAnimate P i st) r) = NaN"
  using assms
  by (simp add: frPassAnimate_def forces_single updateOneAnimate_def Let_def temp_zero_disp
        js_max_def js_min_def)

end
